theory Spec2Isabelle
  imports Complex_Main "HOL-Library.Sublist"
begin

section \<open>Shallow embedding of telbot.py\<close>

text \<open>
  The definitions below follow \<^verbatim>\<open>src/telbot/telbot.py\<close>. Python's unbounded integers are
  \<^typ>\<open>int\<close>, strings are \<^typ>\<open>string\<close>, wall-clock instants and durations are seconds as
  \<^typ>\<open>real\<close> (the rounding of \<^verbatim>\<open>float\<close> is not modelled), exceptions are values of
  \<open>py_error\<close> returned on the left of a sum. Logging has no effect on any value and is
  left out. An identifier that starts with an underscore in the source loses it here.
\<close>

subsection \<open>Errors and list indexing\<close>

datatype py_error = IndexError | NotADirectoryError | IsADirectoryError | KeyError

text \<open>
  Subscription \<^verbatim>\<open>xs[i]\<close> of a Python list: positions \<open>0 .. len - 1\<close> read from the front,
  positions \<open>-len .. -1\<close> from the back, every other position raises \<^verbatim>\<open>IndexError\<close>.
\<close>

definition py_index :: "'a list \<Rightarrow> int \<Rightarrow> py_error + 'a" where
  "py_index xs i =
     (if 0 \<le> i \<and> i < int (length xs) then Inr (xs ! nat i)
      else if i < 0 \<and> - int (length xs) \<le> i then Inr (xs ! nat (int (length xs) + i))
      else Inl IndexError)"

subsection \<open>Rotation state: \<^verbatim>\<open>TelegramPoster\<close> and \<^verbatim>\<open>posting_state.json\<close>\<close>

text \<open>
  The state file is either absent, or holds text that \<^verbatim>\<open>json.loads\<close> rejects (an empty or
  truncated file, for instance), or holds the object that \<^verbatim>\<open>_save_state\<close> writes: the index,
  the active flag and the optional last post time. The key \<^verbatim>\<open>last_update\<close> is written but
  never read back and is omitted.
\<close>

record stored =
  s_current_channel_index :: int
  s_is_posting :: bool
  s_last_post_time :: "real option"

datatype state_file = Absent | Malformed | Stored stored

text \<open>The handle of \<^verbatim>\<open>job_queue.run_repeating(interval=..., first=...)\<close>, in seconds.\<close>

record job =
  job_interval :: real
  job_first :: real

record poster =
  channels_list :: "string list"
  current_channel_index :: int
  is_posting :: bool
  last_post_time :: "real option"
  posting_job :: "job option"
  low_content_warned :: "string set"
  last_send_error :: "string option"

definition load_state :: "state_file \<Rightarrow> poster \<Rightarrow> poster" where
  "load_state sf p =
     (case sf of
        Absent \<Rightarrow> p
      | Malformed \<Rightarrow> p
      | Stored st \<Rightarrow>
          (let p1 = p\<lparr>current_channel_index := s_current_channel_index st\<rparr>;
               p2 = (if current_channel_index p1 \<ge> int (length (channels_list p1))
                     then p1\<lparr>current_channel_index := 0\<rparr> else p1)
           in case s_last_post_time st of
                None \<Rightarrow> p2
              | Some ts \<Rightarrow> p2\<lparr>last_post_time := Some ts\<rparr>))"

definition save_state :: "poster \<Rightarrow> state_file" where
  "save_state p =
     Stored \<lparr>s_current_channel_index = current_channel_index p,
             s_is_posting = is_posting p,
             s_last_post_time = last_post_time p\<rparr>"

text \<open>\<^verbatim>\<open>TelegramPoster.__init__\<close>, given the keys of the enabled channels in configuration order.\<close>

definition init_poster :: "string list \<Rightarrow> state_file \<Rightarrow> poster" where
  "init_poster chans sf =
     load_state sf
       \<lparr>channels_list = chans, current_channel_index = 0, is_posting = False,
        last_post_time = None, posting_job = None, low_content_warned = {},
        last_send_error = None\<rparr>"

definition get_next_channel ::
  "poster \<Rightarrow> state_file \<Rightarrow> py_error + (string option \<times> poster \<times> state_file)" where
  "get_next_channel p sf =
     (if channels_list p = [] then Inr (None, p, sf)
      else case py_index (channels_list p) (current_channel_index p) of
             Inl e \<Rightarrow> Inl e
           | Inr ch \<Rightarrow>
               (let p' = p\<lparr>current_channel_index :=
                             (current_channel_index p + 1) mod int (length (channels_list p))\<rparr>
                in Inr (Some ch, p', save_state p')))"

text \<open>\<open>k\<close> consecutive calls of \<^verbatim>\<open>get_next_channel\<close>, nothing else touching the poster.\<close>

fun next_channels ::
  "nat \<Rightarrow> poster \<Rightarrow> state_file \<Rightarrow> py_error + (string option list \<times> poster \<times> state_file)" where
  "next_channels 0 p sf = Inr ([], p, sf)"
| "next_channels (Suc k) p sf =
     (case get_next_channel p sf of
        Inl e \<Rightarrow> Inl e
      | Inr (ch, p', sf') \<Rightarrow>
          (case next_channels k p' sf' of
             Inl e \<Rightarrow> Inl e
           | Inr (chs, p'', sf'') \<Rightarrow> Inr (ch # chs, p'', sf'')))"

text \<open>
  The part of \<^verbatim>\<open>cmd_reload\<close> that touches the poster, after \<^verbatim>\<open>reload_config()\<close> has
  succeeded; \<open>chans\<close> is the new value of \<^verbatim>\<open>list(get_enabled_channels().keys())\<close>.
\<close>

definition cmd_reload :: "string list \<Rightarrow> poster \<Rightarrow> poster" where
  "cmd_reload chans p =
     (let p1 = p\<lparr>channels_list := chans\<rparr>
      in if current_channel_index p1 \<ge> int (length (channels_list p1))
         then p1\<lparr>current_channel_index := 0\<rparr> else p1)"

text \<open>The index is a position of the list.\<close>

definition valid_index :: "poster \<Rightarrow> bool" where
  "valid_index p \<longleftrightarrow>
     0 \<le> current_channel_index p \<and> current_channel_index p < int (length (channels_list p))"

text \<open>What the state file holds was saved with a non-negative index.\<close>

definition file_index_ok :: "state_file \<Rightarrow> bool" where
  "file_index_ok sf = (case sf of Stored st \<Rightarrow> 0 \<le> s_current_channel_index st | _ \<Rightarrow> True)"

text \<open>The cyclic order the rotation is expected to follow: \<open>k\<close> picks from position \<open>i\<close>.\<close>

definition rotation :: "string list \<Rightarrow> int \<Rightarrow> nat \<Rightarrow> string option list" where
  "rotation chans i k =
     map (\<lambda>j. Some (chans ! nat ((i + int j) mod int (length chans)))) [0..<k]"

text \<open>A poster used to instantiate the theorems below.\<close>

definition example_poster :: poster where
  "example_poster =
     \<lparr>channels_list = [''a'', ''b'', ''c''], current_channel_index = 1, is_posting = False,
      last_post_time = None, posting_job = None, low_content_warned = {},
      last_send_error = None\<rparr>"

subsection \<open>Strings\<close>

text \<open>
  A \<^typ>\<open>char\<close> is a byte and text is UTF-8. \<^verbatim>\<open>str.lower()\<close> is modelled on the ASCII letters
  only; text outside ASCII keeps its bytes, none of which is an ASCII byte. (Python also
  lowers the letters outside ASCII, two of them, U+212A and U+0130, to text with an ASCII
  letter; such text is outside the model.)
\<close>

definition lower_char :: "char \<Rightarrow> char" where
  "lower_char c =
     (let n = (of_char c :: nat) in if 65 \<le> n \<and> n \<le> 90 then char_of (n + 32) else c)"

definition lower :: "string \<Rightarrow> string" where
  "lower s = map lower_char s"

text \<open>\<^verbatim>\<open>str(c)\<close> of a natural number: its decimal digits.\<close>

definition digit :: "nat \<Rightarrow> char" where
  "digit d = char_of (48 + d)"

fun py_str :: "nat \<Rightarrow> string" where
  "py_str n = (if n < 10 then [digit n] else py_str (n div 10) @ [digit (n mod 10)])"

declare py_str.simps [simp del]

text \<open>
  \<^verbatim>\<open>Path(name).sfx\<close> and \<^verbatim>\<open>Path(name).stem\<close> of a single path component: with \<open>i\<close>
  the position of the last dot, the suffix is \<^verbatim>\<open>name[i:]\<close> when \<open>0 < i < len(name) - 1\<close> and
  empty otherwise; the stem is the rest. \<open>after_dot\<close> counts the characters behind the
  last dot.
\<close>

definition after_dot :: "string \<Rightarrow> nat" where
  "after_dot name = length (takeWhile (\<lambda>c. c \<noteq> CHR ''.'') (rev name))"

definition py_suffix :: "string \<Rightarrow> string" where
  "py_suffix name =
     (if CHR ''.'' \<in> set name \<and> 0 < after_dot name \<and> after_dot name + 1 < length name
      then drop (length name - 1 - after_dot name) name else [])"

definition py_stem :: "string \<Rightarrow> string" where
  "py_stem name = take (length name - length (py_suffix name)) name"

subsection \<open>Configuration\<close>

text \<open>
  The part of \<^verbatim>\<open>CONFIG\<close> that the modelled functions read. A dictionary is an association
  list in insertion order with distinct keys. A key read with \<^verbatim>\<open>.get(key, default)\<close> is an
  option; \<open>enabled\<close> is the value of \<^verbatim>\<open>v.get("enabled", True)\<close>.
\<close>

record category_cfg =
  folder_name :: "string option"
  hashtags :: "string list"

record channel_cfg =
  channel_name :: "string option"
  channel_id :: string
  enabled :: bool
  categories :: "(string \<times> category_cfg) list"

record config =
  channels :: "(string \<times> channel_cfg) list"
  post_interval_minutes :: "real option"
  first_post_hour :: "int option"
  last_post_hour :: "int option"
  low_content_threshold :: "int option"
  supported_formats :: "string list option"
  settings_supported_formats :: "string list option"
  admin_ids :: "int list"

definition SUPPORTED_FORMATS :: "string list" where
  "SUPPORTED_FORMATS =
     [''.jpg'', ''.jpeg'', ''.png'', ''.gif'', ''.webp'', ''.mp4'', ''.webm'', ''.mov'']"

definition DEFAULT_LOW_CONTENT_THRESHOLD :: int where
  "DEFAULT_LOW_CONTENT_THRESHOLD = 10"

definition get_enabled_channels :: "config \<Rightarrow> (string \<times> channel_cfg) list" where
  "get_enabled_channels cfg = filter (\<lambda>(k, v). enabled v) (channels cfg)"

text \<open>\<^verbatim>\<open>a or b\<close> takes \<open>b\<close> when \<open>a\<close> is \<^verbatim>\<open>None\<close> or the empty list.\<close>

definition get_supported_formats :: "config \<Rightarrow> string list" where
  "get_supported_formats cfg =
     (case supported_formats cfg of
        Some (f # fs) \<Rightarrow> f # fs
      | _ \<Rightarrow> (case settings_supported_formats cfg of
                Some fs \<Rightarrow> fs
              | None \<Rightarrow> SUPPORTED_FORMATS))"

subsection \<open>Starting the schedule\<close>

text \<open>
  \<^verbatim>\<open>start_posting\<close> at the instant \<open>now\<close>. The job queue is external: the call
  \<^verbatim>\<open>run_repeating(interval, first)\<close> is recorded as the job handle kept in the poster.
\<close>

definition start_posting ::
  "config \<Rightarrow> real \<Rightarrow> poster \<Rightarrow> state_file \<Rightarrow> bool \<times> poster \<times> state_file" where
  "start_posting cfg now p sf =
     (if is_posting p then (False, p, sf)
      else
        let interval_min = (case post_interval_minutes cfg of Some m \<Rightarrow> m | None \<Rightarrow> 30);
            first_delay =
              (case last_post_time p of
                 None \<Rightarrow> 10
               | Some t \<Rightarrow>
                   (let elapsed = now - t;
                        remaining = interval_min * 60 - elapsed
                    in if remaining > 0 then remaining else 10));
            p' = p\<lparr>posting_job := Some \<lparr>job_interval = interval_min * 60,
                                         job_first = first_delay\<rparr>,
                    is_posting := True\<rparr>
        in (True, p', save_state p'))"

text \<open>The delay before the first tick that a call of \<^verbatim>\<open>start_posting\<close> has scheduled.\<close>

definition first_delay_of :: "bool \<times> poster \<times> state_file \<Rightarrow> real option" where
  "first_delay_of r = map_option job_first (posting_job (fst (snd r)))"

definition example_config :: config where
  "example_config =
     \<lparr>channels =
        [(''a'', \<lparr>channel_name = None, channel_id = ''@a'', enabled = True, categories = []\<rparr>),
         (''b'', \<lparr>channel_name = None, channel_id = ''@b'', enabled = True, categories = []\<rparr>)],
      post_interval_minutes = Some 30, first_post_hour = None, last_post_hour = None,
      low_content_threshold = None, supported_formats = None,
      settings_supported_formats = None, admin_ids = [1]\<rparr>"

subsection \<open>Publish outcome and failure hints\<close>

datatype reason = No_content | File_missing | Send_failed

text \<open>
  The result dictionary of \<^verbatim>\<open>post_and_delete\<close>: \<^verbatim>\<open>{"ok": True}\<close>, or
  \<^verbatim>\<open>{"ok": False, "reason": ..., "details": ...}\<close>.
\<close>

datatype outcome = Ok | Failed reason string

text \<open>
  The six hint texts of \<^verbatim>\<open>_posting_tick\<close> (Russian sentences in the source), in the order
  of the branches that assign them; no hint is the empty string there and \<open>None\<close> here.
\<close>

datatype hint =
  Hint_not_in_channel | Hint_bot_excluded | Hint_no_rights | Hint_bad_file
| Hint_too_large | Hint_rate_limit

definition api_hint :: "reason \<Rightarrow> string \<Rightarrow> hint option" where
  "api_hint reason details =
     (if reason = Send_failed then
        (let err_lower = lower details in
         if sublist ''chat not found'' err_lower then Some Hint_not_in_channel
         else if sublist ''bot was kicked'' err_lower \<or> sublist ''bot is not a member'' err_lower
           then Some Hint_bot_excluded
         else if sublist ''forbidden'' err_lower then Some Hint_no_rights
         else if sublist ''wrong file identifier'' err_lower \<or> sublist ''invalid'' err_lower
           then Some Hint_bad_file
         else if sublist ''too large'' err_lower \<or> sublist ''file is too big'' err_lower
           then Some Hint_too_large
         else if sublist ''flood'' err_lower \<or> sublist ''too many requests'' err_lower
           then Some Hint_rate_limit
         else None)
      else None)"

text \<open>
  The details of a \<^verbatim>\<open>send_failed\<close> outcome: the file name, its size, the category, and
  the text of the transport error (\<^verbatim>\<open>_last_send_error\<close>, or a fixed text when it is
  \<^verbatim>\<open>None\<close> or empty). The fixed Russian parts are given by their UTF-8 bytes.
\<close>

definition txt_file :: string where
  "txt_file = [CHR 0xD0, CHR 0xA4, CHR 0xD0, CHR 0xB0, CHR 0xD0, CHR 0xB9, CHR 0xD0, CHR 0xBB,
               CHR '':'', CHR '' '']"

definition txt_bytes_category :: string where
  "txt_bytes_category =
     [CHR '' '', CHR 0xD0, CHR 0xB1, CHR 0xD0, CHR 0xB0, CHR 0xD0, CHR 0xB9, CHR 0xD1, CHR 0x82,
      CHR '')'', CHR '','', CHR '' '', CHR 0xD0, CHR 0xBA, CHR 0xD0, CHR 0xB0, CHR 0xD1, CHR 0x82,
      CHR 0xD0, CHR 0xB5, CHR 0xD0, CHR 0xB3, CHR 0xD0, CHR 0xBE, CHR 0xD1, CHR 0x80, CHR 0xD0,
      CHR 0xB8, CHR 0xD1, CHR 0x8F, CHR '':'', CHR '' '']"

definition txt_api_error :: string where
  "txt_api_error =
     [CHR 0x0A, CHR ''A'', CHR ''P'', CHR ''I'', CHR '' '', CHR 0xD0, CHR 0xBE, CHR 0xD1, CHR 0x88,
      CHR 0xD0, CHR 0xB8, CHR 0xD0, CHR 0xB1, CHR 0xD0, CHR 0xBA, CHR 0xD0, CHR 0xB0, CHR '':'',
      CHR '' '']"

definition txt_unknown_error :: string where
  "txt_unknown_error =
     [CHR 0xD0, CHR 0xBD, CHR 0xD0, CHR 0xB5, CHR 0xD0, CHR 0xB8, CHR 0xD0, CHR 0xB7, CHR 0xD0,
      CHR 0xB2, CHR 0xD0, CHR 0xB5, CHR 0xD1, CHR 0x81, CHR 0xD1, CHR 0x82, CHR 0xD0, CHR 0xBD,
      CHR 0xD0, CHR 0xB0, CHR 0xD1, CHR 0x8F, CHR '' '', CHR 0xD0, CHR 0xBE, CHR 0xD1, CHR 0x88,
      CHR 0xD0, CHR 0xB8, CHR 0xD0, CHR 0xB1, CHR 0xD0, CHR 0xBA, CHR 0xD0, CHR 0xB0]"

definition api_err_text :: "string option \<Rightarrow> string" where
  "api_err_text err =
     (case err of None \<Rightarrow> txt_unknown_error
      | Some e \<Rightarrow> if e = [] then txt_unknown_error else e)"

definition send_failed_details :: "string \<Rightarrow> nat \<Rightarrow> string \<Rightarrow> string option \<Rightarrow> string" where
  "send_failed_details file_name st_size category err =
     txt_file @ file_name @ '' ('' @ py_str st_size @ txt_bytes_category @ category
     @ txt_api_error @ api_err_text err"

text \<open>
  The table of the specification with the patterns of the source: each entry lists the
  patterns of one branch; an entry matches when one of its patterns occurs in the text.
\<close>

definition hint_table :: "(string list \<times> hint) list" where
  "hint_table =
     [([''chat not found''], Hint_not_in_channel),
      ([''bot was kicked'', ''bot is not a member''], Hint_bot_excluded),
      ([''forbidden''], Hint_no_rights),
      ([''wrong file identifier'', ''invalid''], Hint_bad_file),
      ([''too large'', ''file is too big''], Hint_too_large),
      ([''flood'', ''too many requests''], Hint_rate_limit)]"

fun first_match :: "(string list \<times> hint) list \<Rightarrow> string \<Rightarrow> hint option" where
  "first_match [] text = None"
| "first_match ((pats, h) # rest) text =
     (if list_ex (\<lambda>pat. sublist pat text) pats then Some h else first_match rest text)"

subsection \<open>Collision-avoiding file names\<close>

text \<open>
  A directory is given by the names of its entries, and \<^verbatim>\<open>(directory / name).exists()\<close>
  is membership. The candidate with counter \<open>c\<close> is \<^verbatim>\<open>f"{stem}_{c}{suffix}"\<close>.
\<close>

definition candidate :: "string \<Rightarrow> string \<Rightarrow> nat \<Rightarrow> string" where
  "candidate stem sfx c = stem @ ''_'' @ py_str c @ sfx"

lemma digit_inj: "a < 10 \<Longrightarrow> b < 10 \<Longrightarrow> digit a = digit b \<Longrightarrow> a = b"
  by (simp add: digit_def char_of_eq_iff take_bit_eq_mod)

lemma py_str_not_Nil: "py_str n \<noteq> []"
  by (subst py_str.simps) simp

lemma py_str_inj: "py_str n = py_str m \<Longrightarrow> n = m"
proof (induction n arbitrary: m rule: py_str.induct)
  case (1 n)
  show ?case
  proof (cases "n < 10")
    case small: True
    show ?thesis
    proof (cases "m < 10")
      case True
      with small "1.prems" show ?thesis
        by (simp add: py_str.simps[of n] py_str.simps[of m] digit_inj)
    next
      case False
      with small "1.prems" show ?thesis
        using py_str_not_Nil[of "m div 10"]
        by (simp add: py_str.simps[of n] py_str.simps[of m])
    qed
  next
    case big: False
    show ?thesis
    proof (cases "m < 10")
      case True
      with big "1.prems" show ?thesis
        using py_str_not_Nil[of "n div 10"]
        by (simp add: py_str.simps[of n] py_str.simps[of m])
    next
      case False
      with big "1.prems" have "py_str (n div 10) = py_str (m div 10)"
        and "digit (n mod 10) = digit (m mod 10)"
        by (simp_all add: py_str.simps[of n] py_str.simps[of m])
      then have "n div 10 = m div 10" and "n mod 10 = m mod 10"
        using "1.IH"[OF big] by (simp_all add: digit_inj)
      then show ?thesis by (metis div_mult_mod_eq)
    qed
  qed
qed

lemma candidate_inj: "candidate stem sfx c = candidate stem sfx c' \<Longrightarrow> c = c'"
  by (simp add: candidate_def py_str_inj)

lemma finite_taken: "finite {k. candidate stem sfx k \<in> set directory}"
proof -
  have "inj (candidate stem sfx)" by (rule injI) (rule candidate_inj)
  then have "finite (candidate stem sfx -` set directory)"
    by (intro finite_vimageI) simp_all
  then show ?thesis by (simp add: vimage_def)
qed

text \<open>The loop \<^verbatim>\<open>while (directory / f"{stem}_{c}{suffix}").exists(): c += 1\<close>.\<close>

function first_free :: "string list \<Rightarrow> string \<Rightarrow> string \<Rightarrow> nat \<Rightarrow> nat" where
  "first_free directory stem sfx c =
     (if candidate stem sfx c \<in> set directory
      then first_free directory stem sfx (c + 1) else c)"
  by pat_completeness auto
termination
proof (relation "measure (\<lambda>(directory, stem, sfx, c).
                   card {k. c \<le> k \<and> candidate stem sfx k \<in> set directory})")
  show "wf (measure (\<lambda>(directory, stem, sfx, c).
                   card {k. c \<le> k \<and> candidate stem sfx k \<in> set directory}))"
    by simp
next
  fix directory :: "string list" and stem sfx :: string and c :: nat
  assume taken: "candidate stem sfx c \<in> set directory"
  let ?S = "\<lambda>c. {k. c \<le> k \<and> candidate stem sfx k \<in> set directory}"
  have fin: "finite (?S c)" using finite_taken[of stem sfx directory] by simp
  have "c \<in> ?S c" and "c \<notin> ?S (c + 1)" and "?S (c + 1) \<subseteq> ?S c"
    using taken by auto
  then have "?S (c + 1) \<subset> ?S c" by blast
  then have "card (?S (c + 1)) < card (?S c)" using fin by (rule psubset_card_mono[rotated])
  then show "((directory, stem, sfx, c + 1), (directory, stem, sfx, c))
             \<in> measure (\<lambda>(directory, stem, sfx, c).
                   card {k. c \<le> k \<and> candidate stem sfx k \<in> set directory})"
    by simp
qed

declare first_free.simps [simp del]

definition generate_unique_filename :: "string list \<Rightarrow> string \<Rightarrow> string" where
  "generate_unique_filename directory filename =
     (if filename \<notin> set directory then filename
      else candidate (py_stem filename) (py_suffix filename)
             (first_free directory (py_stem filename) (py_suffix filename) 1))"

subsection \<open>Low-content monitor\<close>

text \<open>
  \<open>stats\<close> is \<^verbatim>\<open>get_content_stats()["channels"]\<close> reduced to the totals: the enabled channels
  in configuration order, each with its number of files. An alert is the warning text
  (channel, remaining count, threshold) together with the administrators it is sent to, one
  \<^verbatim>\<open>send_message\<close> each, failures ignored.
\<close>

definition get_low_content_channels :: "int \<Rightarrow> (string \<times> int) list \<Rightarrow> (string \<times> int) list" where
  "get_low_content_channels threshold stats =
     filter (\<lambda>(ch_key, cnt). cnt < threshold) stats"

record alert =
  alert_channel :: string
  alert_count :: int
  alert_threshold :: int
  alert_recipients :: "int list"

definition threshold_of :: "config \<Rightarrow> int" where
  "threshold_of cfg =
     (case low_content_threshold cfg of Some t \<Rightarrow> t | None \<Rightarrow> DEFAULT_LOW_CONTENT_THRESHOLD)"

text \<open>The first loop of \<^verbatim>\<open>_check_low_content\<close>: the alerts sent so far and the warned set.\<close>

fun warn_loop ::
  "config \<Rightarrow> (string \<times> int) list \<Rightarrow> alert list \<times> string set \<Rightarrow> alert list \<times> string set" where
  "warn_loop cfg [] acc = acc"
| "warn_loop cfg ((ch_key, count) # low) (alerts, warned) =
     (if ch_key \<in> warned then warn_loop cfg low (alerts, warned)
      else warn_loop cfg low
             (alerts @ [\<lparr>alert_channel = ch_key, alert_count = count,
                          alert_threshold = threshold_of cfg,
                          alert_recipients = admin_ids cfg\<rparr>],
              insert ch_key warned))"

definition check_low_content :: "config \<Rightarrow> (string \<times> int) list \<Rightarrow> poster \<Rightarrow> alert list \<times> poster" where
  "check_low_content cfg stats p =
     (let low = get_low_content_channels (threshold_of cfg) stats;
          (alerts, warned) = warn_loop cfg low ([], low_content_warned p);
          warned' = Set.filter (\<lambda>ch_key. ch_key \<in> fst ` set low) warned
      in (alerts, p\<lparr>low_content_warned := warned'\<rparr>))"

text \<open>
  Successive checks, one per snapshot of the statistics: the alerts of each check and the
  warned set after it.
\<close>

fun run_checks ::
  "config \<Rightarrow> poster \<Rightarrow> (string \<times> int) list list \<Rightarrow> (alert list \<times> string set) list" where
  "run_checks cfg p [] = []"
| "run_checks cfg p (stats # rest) =
     (let (alerts, p') = check_low_content cfg stats p
      in (alerts, low_content_warned p') # run_checks cfg p' rest)"

text \<open>A channel is below the threshold in a snapshot.\<close>

definition below :: "config \<Rightarrow> (string \<times> int) list \<Rightarrow> string \<Rightarrow> bool" where
  "below cfg stats ch_key =
     (case map_of stats ch_key of Some cnt \<Rightarrow> cnt < threshold_of cfg | None \<Rightarrow> False)"

subsection \<open>The content tree\<close>

text \<open>
  The directory \<^verbatim>\<open>content\<close> is given by its entries, each a name with a file (of some size)
  or a directory; \<^verbatim>\<open>iterdir()\<close> yields the entries in list order and \<^verbatim>\<open>path / name\<close> is
  the first entry of that name. A path is the list of its components below
  \<^verbatim>\<open>content\<close>; channel keys, directory and file names are single components.
\<close>

datatype node = File nat | Dir "(string \<times> node) list"

fun lookup :: "(string \<times> node) list \<Rightarrow> string list \<Rightarrow> node option" where
  "lookup es [] = None"
| "lookup es [n] = map_of es n"
| "lookup es (n # m # ns) =
     (case map_of es n of Some (Dir sub) \<Rightarrow> lookup sub (m # ns) | _ \<Rightarrow> None)"

text \<open>The tree without the entry at a path.\<close>

fun remove_path :: "(string \<times> node) list \<Rightarrow> string list \<Rightarrow> (string \<times> node) list" where
  "remove_path es [] = es"
| "remove_path es [n] = filter (\<lambda>(k, nd). k \<noteq> n) es"
| "remove_path es (n # m # ns) =
     map (\<lambda>(k, nd). if k = n
                     then (case nd of Dir sub \<Rightarrow> (k, Dir (remove_path sub (m # ns)))
                           | File s \<Rightarrow> (k, nd))
                     else (k, nd)) es"

text \<open>
  \<^verbatim>\<open>re.match(r"\d{4}-\d{2}", name)\<close>: four digits, a hyphen and two digits at the start
  of the name (ASCII digits).
\<close>

definition is_digit :: "char \<Rightarrow> bool" where
  "is_digit c \<longleftrightarrow> 48 \<le> (of_char c :: nat) \<and> (of_char c :: nat) \<le> 57"

fun month_re :: "string \<Rightarrow> bool" where
  "month_re (a # b # c # d # e # f # g # rest) \<longleftrightarrow>
     is_digit a \<and> is_digit b \<and> is_digit c \<and> is_digit d \<and> e = CHR ''-''
     \<and> is_digit f \<and> is_digit g"
| "month_re name \<longleftrightarrow> False"

definition month_dirs :: "(string \<times> node) list \<Rightarrow> (string \<times> (string \<times> node) list) list" where
  "month_dirs content =
     concat (map (\<lambda>(name, nd). case nd of Dir es \<Rightarrow> if month_re name then [(name, es)] else []
                                | File s \<Rightarrow> []) content)"

definition supported :: "config \<Rightarrow> string \<Rightarrow> bool" where
  "supported cfg file_name \<longleftrightarrow> lower (py_suffix file_name) \<in> set (get_supported_formats cfg)"

text \<open>
  The traversal that \<^verbatim>\<open>get_random_image\<close>, \<^verbatim>\<open>get_content_stats\<close> and the diagnostics of
  \<^verbatim>\<open>_posting_tick\<close> each spell out: for every month directory, skip it when it has no
  entry for the channel, otherwise list that entry (which raises when it is a file) and
  keep its sub-directories. The result is the category directories of the channel, each
  with its month, its name and its entries.
\<close>

definition month_cat_dirs ::
  "string \<Rightarrow> string \<times> (string \<times> node) list
   \<Rightarrow> py_error + (string \<times> string \<times> (string \<times> node) list) list" where
  "month_cat_dirs channel_key month =
     (case map_of (snd month) channel_key of
        None \<Rightarrow> Inr []
      | Some (File s) \<Rightarrow> Inl NotADirectoryError
      | Some (Dir ces) \<Rightarrow>
          Inr (concat (map (\<lambda>(cat, nd). case nd of Dir fes \<Rightarrow> [(fst month, cat, fes)]
                                          | File s \<Rightarrow> []) ces)))"

fun channel_cat_dirs ::
  "string \<Rightarrow> (string \<times> (string \<times> node) list) list
   \<Rightarrow> py_error + (string \<times> string \<times> (string \<times> node) list) list" where
  "channel_cat_dirs channel_key [] = Inr []"
| "channel_cat_dirs channel_key (month # months) =
     (case month_cat_dirs channel_key month of
        Inl e \<Rightarrow> Inl e
      | Inr ds \<Rightarrow>
          (case channel_cat_dirs channel_key months of
             Inl e \<Rightarrow> Inl e
           | Inr ds' \<Rightarrow> Inr (ds @ ds')))"

subsection \<open>Choosing and publishing a file\<close>

record image =
  img_path :: "string list"
  img_category :: string
  img_hashtags :: "string list"

text \<open>The first configured hashtag of the category whose folder name is the directory's.\<close>

definition hashtags_for :: "channel_cfg \<Rightarrow> string \<Rightarrow> string list" where
  "hashtags_for ch_cfg cat =
     (case find (\<lambda>cat_cfg. folder_name cat_cfg = Some cat) (map snd (categories ch_cfg)) of
        None \<Rightarrow> []
      | Some cat_cfg \<Rightarrow> take 1 (hashtags cat_cfg))"

definition cat_images ::
  "config \<Rightarrow> channel_cfg \<Rightarrow> string \<Rightarrow> string \<times> string \<times> (string \<times> node) list \<Rightarrow> image list" where
  "cat_images cfg ch_cfg channel_key d =
     (case d of (month, cat, fes) \<Rightarrow>
        map (\<lambda>(f, nd). \<lparr>img_path = [month, channel_key, cat, f], img_category = cat,
                        img_hashtags = hashtags_for ch_cfg cat\<rparr>)
            (filter (\<lambda>(f, nd). supported cfg f) fes))"

text \<open>
  \<^verbatim>\<open>random.choice(images)\<close> takes some element; \<open>rnd\<close> stands for the draw and selects
  position \<open>rnd mod len(images)\<close>.
\<close>

definition get_random_image ::
  "config \<Rightarrow> (string \<times> node) list \<Rightarrow> nat \<Rightarrow> string \<Rightarrow> py_error + image option" where
  "get_random_image cfg content rnd channel_key =
     (if month_dirs content = [] then Inr None
      else case map_of (channels cfg) channel_key of
             None \<Rightarrow> Inl KeyError
           | Some ch_cfg \<Rightarrow>
               (case channel_cat_dirs channel_key (month_dirs content) of
                  Inl e \<Rightarrow> Inl e
                | Inr ds \<Rightarrow>
                    (let images = concat (map (cat_images cfg ch_cfg channel_key) ds)
                     in Inr (if images = [] then None
                             else Some (images ! (rnd mod length images))))))"

text \<open>
  \<^verbatim>\<open>cleanup_empty_dirs\<close>. In a month directory every empty category directory goes, then
  every channel directory left empty; the month directory itself goes when nothing is left
  in it, or only one entry named \<^verbatim>\<open>package_info.json\<close>, which is unlinked first (and
  unlinking a directory raises). The months are independent of each other, so the order in
  which they are visited shows in nothing that is returned; the number of removed
  directories is only logged and is left out.
\<close>

definition clean_channel :: "string \<times> node \<Rightarrow> (string \<times> node) list" where
  "clean_channel ch_dir =
     (case snd ch_dir of
        File s \<Rightarrow> [ch_dir]
      | Dir ces \<Rightarrow>
          (let ces' = filter (\<lambda>(cat, nd). nd \<noteq> Dir []) ces
           in if ces' = [] then [] else [(fst ch_dir, Dir ces')]))"

definition clean_month :: "string \<times> node \<Rightarrow> py_error + (string \<times> node) list" where
  "clean_month month_dir =
     (case snd month_dir of
        File s \<Rightarrow> Inr [month_dir]
      | Dir mes \<Rightarrow>
          if \<not> month_re (fst month_dir) then Inr [month_dir]
          else
            (let remaining = concat (map clean_channel mes)
             in if remaining = []
                   \<or> (length remaining = 1 \<and> fst (hd remaining) = ''package_info.json'')
                then (if list_ex (\<lambda>(n, nd). case nd of Dir es \<Rightarrow> True | File s \<Rightarrow> False) remaining
                      then Inl IsADirectoryError else Inr [])
                else Inr [(fst month_dir, Dir remaining)]))"

fun cleanup_empty_dirs :: "(string \<times> node) list \<Rightarrow> py_error + (string \<times> node) list" where
  "cleanup_empty_dirs [] = Inr []"
| "cleanup_empty_dirs (month_dir # rest) =
     (case clean_month month_dir of
        Inl e \<Rightarrow> Inl e
      | Inr kept \<Rightarrow>
          (case cleanup_empty_dirs rest of
             Inl e \<Rightarrow> Inl e
           | Inr rest' \<Rightarrow> Inr (kept @ rest')))"

text \<open>
  What a tick takes from outside: the clock, the draw of \<^verbatim>\<open>random.choice\<close>, the answer
  of the transport (\<open>None\<close> for a delivery, otherwise the text of the exception), and
  whether the file system refuses the deletion of the published file.
\<close>

record env =
  env_now :: real
  env_hour :: int
  env_rnd :: nat
  env_send_result :: "string option"
  env_unlink_fails :: bool

definition txt_no_content :: string where
  "txt_no_content =
     [
      CHR 0xD0, CHR 0x9D, CHR 0xD0, CHR 0xB5, CHR 0xD1, CHR 0x82, CHR '' '', CHR 0xD1,
      CHR 0x84, CHR 0xD0, CHR 0xB0, CHR 0xD0, CHR 0xB9, CHR 0xD0, CHR 0xBB, CHR 0xD0,
      CHR 0xBE, CHR 0xD0, CHR 0xB2, CHR '' '', CHR 0xD0, CHR 0xBF, CHR 0xD0, CHR 0xBE,
      CHR 0xD0, CHR 0xB4, CHR 0xD0, CHR 0xB4, CHR 0xD0, CHR 0xB5, CHR 0xD1, CHR 0x80,
      CHR 0xD0, CHR 0xB6, CHR 0xD0, CHR 0xB8, CHR 0xD0, CHR 0xB2, CHR 0xD0, CHR 0xB0,
      CHR 0xD0, CHR 0xB5, CHR 0xD0, CHR 0xBC, CHR 0xD1, CHR 0x8B, CHR 0xD1, CHR 0x85,
      CHR '' '', CHR 0xD1, CHR 0x84, CHR 0xD0, CHR 0xBE, CHR 0xD1, CHR 0x80, CHR 0xD0,
      CHR 0xBC, CHR 0xD0, CHR 0xB0, CHR 0xD1, CHR 0x82, CHR 0xD0, CHR 0xBE, CHR 0xD0,
      CHR 0xB2, CHR '' '', CHR 0xD0, CHR 0xB2, CHR '' '', CHR 0xD0, CHR 0xBF, CHR 0xD0,
      CHR 0xB0, CHR 0xD0, CHR 0xBF, CHR 0xD0, CHR 0xBA, CHR 0xD0, CHR 0xB0, CHR 0xD1,
      CHR 0x85, CHR '' '', CHR 0xD0, CHR 0xBA, CHR 0xD0, CHR 0xBE, CHR 0xD0, CHR 0xBD,
      CHR 0xD1, CHR 0x82, CHR 0xD0, CHR 0xB5, CHR 0xD0, CHR 0xBD, CHR 0xD1, CHR 0x82,
      CHR 0xD0, CHR 0xB0]"

definition txt_file_gone :: string where
  "txt_file_gone =
     [
      CHR 0xD0, CHR 0xA4, CHR 0xD0, CHR 0xB0, CHR 0xD0, CHR 0xB9, CHR 0xD0, CHR 0xBB,
      CHR '' '', CHR 0xD0, CHR 0xB8, CHR 0xD1, CHR 0x81, CHR 0xD1, CHR 0x87, CHR 0xD0,
      CHR 0xB5, CHR 0xD0, CHR 0xB7, CHR '':'', CHR '' '']"

text \<open>
  \<^verbatim>\<open>file_path.unlink()\<close> inside \<^verbatim>\<open>try ... except Exception\<close>: a file is removed unless
  the file system refuses; a directory or a missing entry raises, which is caught.
\<close>

definition try_unlink :: "env \<Rightarrow> (string \<times> node) list \<Rightarrow> string list \<Rightarrow> (string \<times> node) list" where
  "try_unlink ev content path =
     (case lookup content path of
        Some (File s) \<Rightarrow> if env_unlink_fails ev then content else remove_path content path
      | _ \<Rightarrow> content)"

text \<open>\<^verbatim>\<open>st_size\<close>; for a directory the number is the file system's and is taken as 0.\<close>

definition stat_size :: "node option \<Rightarrow> nat" where
  "stat_size nd = (case nd of Some (File s) \<Rightarrow> s | _ \<Rightarrow> 0)"

definition post_and_delete ::
  "config \<Rightarrow> env \<Rightarrow> poster \<Rightarrow> state_file \<Rightarrow> (string \<times> node) list \<Rightarrow> string
   \<Rightarrow> py_error + (outcome \<times> poster \<times> state_file \<times> (string \<times> node) list)" where
  "post_and_delete cfg ev p sf content channel_key =
     (case map_of (channels cfg) channel_key of
        None \<Rightarrow> Inl KeyError
      | Some ch_cfg \<Rightarrow>
          (case get_random_image cfg content (env_rnd ev) channel_key of
             Inl e \<Rightarrow> Inl e
           | Inr None \<Rightarrow> Inr (Failed No_content txt_no_content, p, sf, content)
           | Inr (Some img) \<Rightarrow>
               if lookup content (img_path img) = None
               then Inr (Failed File_missing (txt_file_gone @ last (img_path img)), p, sf, content)
               else
                 (case env_send_result ev of
                    None \<Rightarrow>
                      (let p1 = p\<lparr>last_send_error := None\<rparr>;
                           content1 = try_unlink ev content (img_path img)
                       in case cleanup_empty_dirs content1 of
                            Inl e \<Rightarrow> Inl e
                          | Inr content2 \<Rightarrow>
                              (let p2 = p1\<lparr>last_post_time := Some (env_now ev)\<rparr>
                               in Inr (Ok, p2, save_state p2, content2)))
                  | Some err \<Rightarrow>
                      (let p1 = p\<lparr>last_send_error := Some err\<rparr>
                       in Inr (Failed Send_failed
                                 (send_failed_details (last (img_path img))
                                    (stat_size (lookup content (img_path img)))
                                    (img_category img) (last_send_error p1)),
                               p1, sf, content)))))"

subsection \<open>Content statistics and the posting tick\<close>

definition count_supported ::
  "config \<Rightarrow> (string \<times> string \<times> (string \<times> node) list) list \<Rightarrow> int" where
  "count_supported cfg ds =
     sum_list (map (\<lambda>(month, cat, fes). int (length (filter (\<lambda>(f, nd). supported cfg f) fes))) ds)"

fun channel_totals ::
  "config \<Rightarrow> (string \<times> (string \<times> node) list) list \<Rightarrow> string list
   \<Rightarrow> py_error + (string \<times> int) list" where
  "channel_totals cfg months [] = Inr []"
| "channel_totals cfg months (ch_key # ch_keys) =
     (case channel_cat_dirs ch_key months of
        Inl e \<Rightarrow> Inl e
      | Inr ds \<Rightarrow>
          (case channel_totals cfg months ch_keys of
             Inl e \<Rightarrow> Inl e
           | Inr rest \<Rightarrow> Inr ((ch_key, count_supported cfg ds) # rest)))"

definition get_content_stats :: "config \<Rightarrow> (string \<times> node) list \<Rightarrow> py_error + (string \<times> int) list" where
  "get_content_stats cfg content =
     channel_totals cfg (month_dirs content) (map fst (get_enabled_channels cfg))"

text \<open>
  The diagnostic message of a failed tick: channel, reason, hint, details and the number of
  files found for the channel, sent to every administrator. (The listing of the folders
  and the attached log file are left out.)
\<close>

record diag =
  diag_channel :: string
  diag_reason :: reason
  diag_hint :: "hint option"
  diag_details :: string
  diag_file_count :: int
  diag_recipients :: "int list"

record tick_result =
  t_poster :: poster
  t_state_file :: state_file
  t_content :: "(string \<times> node) list"
  t_channel :: "string option"
  t_outcome :: "outcome option"
  t_diag :: "diag option"
  t_alerts :: "alert list"

definition in_active_hours :: "config \<Rightarrow> int \<Rightarrow> bool" where
  "in_active_hours cfg h \<longleftrightarrow>
     (case first_post_hour cfg of Some f \<Rightarrow> f | None \<Rightarrow> 0) \<le> h
     \<and> h < (case last_post_hour cfg of Some l \<Rightarrow> l | None \<Rightarrow> 24)"

text \<open>
  The tick ends after the selection when \<^verbatim>\<open>not channel_key\<close> holds: when there is no
  channel, and also when the key of the selected channel is the empty string.
\<close>

definition posting_tick ::
  "config \<Rightarrow> env \<Rightarrow> poster \<Rightarrow> state_file \<Rightarrow> (string \<times> node) list \<Rightarrow> py_error + tick_result" where
  "posting_tick cfg ev p sf content =
     (if \<not> in_active_hours cfg (env_hour ev)
      then Inr \<lparr>t_poster = p, t_state_file = sf, t_content = content, t_channel = None,
                t_outcome = None, t_diag = None, t_alerts = []\<rparr>
      else case get_next_channel p sf of
        Inl e \<Rightarrow> Inl e
      | Inr (None, p0, sf0) \<Rightarrow>
          Inr \<lparr>t_poster = p0, t_state_file = sf0, t_content = content, t_channel = None,
               t_outcome = None, t_diag = None, t_alerts = []\<rparr>
      | Inr (Some channel_key, p0, sf0) \<Rightarrow>
          if channel_key = []
          then Inr \<lparr>t_poster = p0, t_state_file = sf0, t_content = content, t_channel = None,
                    t_outcome = None, t_diag = None, t_alerts = []\<rparr>
          else
          (case post_and_delete cfg ev p0 sf0 content channel_key of
             Inl e \<Rightarrow> Inl e
           | Inr (result, p1, sf1, content1) \<Rightarrow>
               (case (case result of
                        Ok \<Rightarrow> Inr None
                      | Failed r details \<Rightarrow>
                          (case channel_cat_dirs channel_key (month_dirs content1) of
                             Inl e \<Rightarrow> Inl e
                           | Inr ds \<Rightarrow>
                               Inr (Some \<lparr>diag_channel = channel_key, diag_reason = r,
                                          diag_hint = api_hint r details,
                                          diag_details = details,
                                          diag_file_count = count_supported cfg ds,
                                          diag_recipients = admin_ids cfg\<rparr>))) of
                  Inl e \<Rightarrow> Inl e
                | Inr dg \<Rightarrow>
                    (case get_content_stats cfg content1 of
                       Inl e \<Rightarrow> Inl e
                     | Inr stats \<Rightarrow>
                         (let (alerts, p2) = check_low_content cfg stats p1
                          in Inr \<lparr>t_poster = p2, t_state_file = sf1, t_content = content1,
                                  t_channel = Some channel_key, t_outcome = Some result,
                                  t_diag = dg, t_alerts = alerts\<rparr>)))))"

text \<open>
  A channel has no file of a supported format: every month directory either has no entry
  for the channel, or has a directory for it whose sub-directories hold no such file.
\<close>

definition no_assets :: "config \<Rightarrow> (string \<times> node) list \<Rightarrow> string \<Rightarrow> bool" where
  "no_assets cfg content channel_key =
     list_all (\<lambda>(month, mes).
        case map_of mes channel_key of
          None \<Rightarrow> True
        | Some (File s) \<Rightarrow> False
        | Some (Dir ces) \<Rightarrow>
            list_all (\<lambda>(cat, nd). case nd of
                         File s \<Rightarrow> True
                       | Dir fes \<Rightarrow> list_all (\<lambda>(f, nd'). \<not> supported cfg f) fes) ces)
       (month_dirs content)"

text \<open>The scenario of the specification: destinations A and B, one file for A, none for B.\<close>

definition scenario_config :: config where
  "scenario_config =
     \<lparr>channels =
        [(''A'', \<lparr>channel_name = None, channel_id = ''@a'', enabled = True,
                  categories = [(''k'', \<lparr>folder_name = Some ''cats'', hashtags = [''#cat'']\<rparr>)]\<rparr>),
         (''B'', \<lparr>channel_name = None, channel_id = ''@b'', enabled = True, categories = []\<rparr>)],
      post_interval_minutes = Some 30, first_post_hour = None, last_post_hour = None,
      low_content_threshold = Some 0, supported_formats = None,
      settings_supported_formats = None, admin_ids = [1]\<rparr>"

definition scenario_content :: "(string \<times> node) list" where
  "scenario_content = [(''2024-01'', Dir [(''A'', Dir [(''cats'', Dir [(''x.JPG'', File 5)])])])]"

definition scenario_env :: env where
  "scenario_env = \<lparr>env_now = 100, env_hour = 12, env_rnd = 7, env_send_result = None,
                    env_unlink_fails = False\<rparr>"

definition scenario_poster :: poster where
  "scenario_poster = init_poster [''A'', ''B''] Absent"

subsection \<open>Albums: \<^verbatim>\<open>ContentUploader\<close>\<close>

text \<open>
  A message of a media group carries the group id, a caption (empty when it has none) and
  what \<^verbatim>\<open>_extract_file_info\<close> finds in it. \<^verbatim>\<open>save_file\<close> downloads through the bot and is
  taken from outside as a function of file id, caption and extension hint; it returns the
  category and the channel, or an error text. The files it writes are not followed here.
\<close>

record message =
  media_group_id :: string
  caption :: string
  file_info :: "(string \<times> string) option"

datatype save_result = Saved string string | Save_error string

text \<open>
  The job queue holds the pending \<^verbatim>\<open>run_once\<close> jobs, each with its handle, its due time
  and its data (the group id). \<^verbatim>\<open>run_once(when=w)\<close> at the instant \<open>now\<close> adds a job due at
  \<open>now + w\<close>; \<^verbatim>\<open>schedule_removal\<close> takes the job out, so that it never runs.
\<close>

record album_job =
  aj_handle :: nat
  aj_due :: real
  aj_data :: string

record job_queue =
  jq_pending :: "album_job list"
  jq_next :: nat

definition run_once :: "real \<Rightarrow> real \<Rightarrow> string \<Rightarrow> job_queue \<Rightarrow> nat \<times> job_queue" where
  "run_once now w data jq =
     (jq_next jq,
      jq\<lparr>jq_pending := jq_pending jq
                          @ [\<lparr>aj_handle = jq_next jq, aj_due = now + w, aj_data = data\<rparr>],
         jq_next := jq_next jq + 1\<rparr>)"

definition schedule_removal :: "nat \<Rightarrow> job_queue \<Rightarrow> job_queue" where
  "schedule_removal h jq = jq\<lparr>jq_pending := filter (\<lambda>j. aj_handle j \<noteq> h) (jq_pending jq)\<rparr>"

record uploader =
  album_buffer :: "string \<rightharpoonup> message list"
  album_timers :: "string \<rightharpoonup> nat"

definition handle_album_message ::
  "real \<Rightarrow> message \<Rightarrow> uploader \<times> job_queue \<Rightarrow> uploader \<times> job_queue" where
  "handle_album_message now msg st =
     (case st of (up, jq) \<Rightarrow>
        let group_id = media_group_id msg;
            buf = (case album_buffer up group_id of None \<Rightarrow> [] | Some ms \<Rightarrow> ms) @ [msg];
            jq1 = (case album_timers up group_id of
                     None \<Rightarrow> jq
                   | Some h \<Rightarrow> schedule_removal h jq);
            (h', jq2) = run_once now 2 group_id jq1
        in (up\<lparr>album_buffer := (album_buffer up)(group_id \<mapsto> buf),
               album_timers := (album_timers up)(group_id \<mapsto> h')\<rparr>,
            jq2))"

text \<open>
  One run of \<^verbatim>\<open>_process_album\<close>: the messages it took from the buffer, in buffer order,
  and the one reply it sends to the first of them, which is made from the number of saved
  files, the number of errors and the last result.
\<close>

record flush =
  fl_time :: real
  fl_group :: string
  fl_messages :: "message list"
  fl_reply_to :: message
  fl_saved :: nat
  fl_errors :: nat
  fl_last_result :: "save_result option"

definition save_step ::
  "(string \<Rightarrow> string \<Rightarrow> string \<Rightarrow> save_result) \<Rightarrow> string \<Rightarrow> message
   \<Rightarrow> nat \<times> nat \<times> save_result option \<Rightarrow> nat \<times> nat \<times> save_result option" where
  "save_step save_file cap m acc =
     (case acc of (saved, errors, last_result) \<Rightarrow>
        (case file_info m of
           None \<Rightarrow> acc
         | Some (file_id, ext) \<Rightarrow>
             (case save_file file_id cap ext of
                Save_error e \<Rightarrow> (saved, errors + 1, Some (Save_error e))
              | Saved cat ch \<Rightarrow> (saved + 1, errors, Some (Saved cat ch)))))"

definition process_album ::
  "(string \<Rightarrow> string \<Rightarrow> string \<Rightarrow> save_result) \<Rightarrow> album_job \<Rightarrow> uploader
   \<Rightarrow> uploader \<times> flush option" where
  "process_album save_file j up =
     (let group_id = aj_data j;
          messages = (case album_buffer up group_id of None \<Rightarrow> [] | Some ms \<Rightarrow> ms);
          up' = up\<lparr>album_buffer := (album_buffer up)(group_id := None),
                   album_timers := (album_timers up)(group_id := None)\<rparr>
      in if messages = [] then (up', None)
         else
           let cap = (case find (\<lambda>m. caption m \<noteq> []) messages of
                        None \<Rightarrow> [] | Some m \<Rightarrow> caption m);
               (saved, errors, last_result) = fold (save_step save_file cap) messages (0, 0, None)
           in (up', Some \<lparr>fl_time = aj_due j, fl_group = group_id, fl_messages = messages,
                          fl_reply_to = hd messages, fl_saved = saved, fl_errors = errors,
                          fl_last_result = last_result\<rparr>))"

text \<open>
  The event loop is sequential: a job runs when its time has come, jobs run in the order
  of their due times, each run is complete before the next event, and when a message that
  arrived at \<open>t\<close> is handled every job due at \<open>t\<close> or before has run.
\<close>

fun run_jobs ::
  "(string \<Rightarrow> string \<Rightarrow> string \<Rightarrow> save_result) \<Rightarrow> album_job list \<Rightarrow> uploader
   \<Rightarrow> uploader \<times> flush list" where
  "run_jobs save_file [] up = (up, [])"
| "run_jobs save_file (j # js) up =
     (let (up1, fl) = process_album save_file j up;
          (up2, fls) = run_jobs save_file js up1
      in (up2, (case fl of None \<Rightarrow> [] | Some f \<Rightarrow> [f]) @ fls))"

definition fire_due ::
  "(string \<Rightarrow> string \<Rightarrow> string \<Rightarrow> save_result) \<Rightarrow> real \<Rightarrow> uploader \<times> job_queue
   \<Rightarrow> (uploader \<times> job_queue) \<times> flush list" where
  "fire_due save_file t st =
     (case st of (up, jq) \<Rightarrow>
        let due = sort_key aj_due (filter (\<lambda>j. aj_due j \<le> t) (jq_pending jq));
            (up', fls) = run_jobs save_file due up
        in ((up', jq\<lparr>jq_pending := filter (\<lambda>j. \<not> aj_due j \<le> t) (jq_pending jq)\<rparr>), fls))"

text \<open>
  The flushes of a run: the messages arrive at the given instants, in list order, and
  after the last arrival the jobs still pending run at their due times.
\<close>

fun run_arrivals ::
  "(string \<Rightarrow> string \<Rightarrow> string \<Rightarrow> save_result) \<Rightarrow> uploader \<times> job_queue
   \<Rightarrow> (real \<times> message) list \<Rightarrow> flush list" where
  "run_arrivals save_file st [] =
     snd (run_jobs save_file (sort_key aj_due (jq_pending (snd st))) (fst st))"
| "run_arrivals save_file st ((t, msg) # rest) =
     (let (st1, fls) = fire_due save_file t st
      in fls @ run_arrivals save_file (handle_album_message t msg st1) rest)"

definition init_uploader :: "uploader \<times> job_queue" where
  "init_uploader =
     (\<lparr>album_buffer = Map.empty, album_timers = Map.empty\<rparr>, \<lparr>jq_pending = [], jq_next = 0\<rparr>)"

text \<open>Arrival instants in order, each less than \<open>q\<close> after the one before.\<close>

fun close_gaps :: "real \<Rightarrow> real list \<Rightarrow> bool" where
  "close_gaps q (t # t' # ts) \<longleftrightarrow> t \<le> t' \<and> t' - t < q \<and> close_gaps q (t' # ts)"
| "close_gaps q ts \<longleftrightarrow> True"

text \<open>\<open>n\<close> messages of one group with file ids 0, 1, ... in this order, the first captioned.\<close>

definition album_message :: "string \<Rightarrow> string \<Rightarrow> nat \<Rightarrow> message" where
  "album_message g cap i =
     \<lparr>media_group_id = g, caption = (if i = 0 then cap else []),
      file_info = Some (py_str i, ''.jpg'')\<rparr>"

definition example_save :: "string \<Rightarrow> string \<Rightarrow> string \<Rightarrow> save_result" where
  "example_save file_id cap ext =
     (if cap = ''#cat'' then Saved ''cats'' ''A'' else Save_error ''no hashtag'')"

text \<open>
  Two shapes of the state for a group: nothing is buffered and no job is pending; or the
  messages \<open>ms\<close> are buffered and the one pending job is the group's, due at \<open>d\<close>.
\<close>

definition idle :: "string \<Rightarrow> uploader \<times> job_queue \<Rightarrow> bool" where
  "idle g st \<longleftrightarrow>
     album_buffer (fst st) g = None \<and> album_timers (fst st) g = None
     \<and> jq_pending (snd st) = []"

definition waiting :: "string \<Rightarrow> message list \<Rightarrow> real \<Rightarrow> uploader \<times> job_queue \<Rightarrow> bool" where
  "waiting g ms d st \<longleftrightarrow>
     album_buffer (fst st) g = Some ms \<and> album_timers (fst st) g \<noteq> None
     \<and> jq_pending (snd st)
         = [\<lparr>aj_handle = the (album_timers (fst st) g), aj_due = d, aj_data = g\<rparr>]"

subsection \<open>Where a pattern can occur in the details\<close>

text \<open>
  The patterns of the table, and what makes a pattern occur in the details only inside the
  file name, the category or the error text: it is not empty, neither starts nor ends with
  a space, has none of the characters \<^verbatim>\<open>: ( ) ,\<close> and newline that close the fixed parts of
  the details, and has a character that occurs in none of the fixed parts nor in a decimal
  number.
\<close>

definition patterns :: "string list" where
  "patterns = concat (map fst hint_table)"

definition fixed_text :: string where
  "fixed_text = lower (txt_file @ '' (0123456789'' @ txt_bytes_category @ txt_api_error)"

definition clean_pattern :: "string \<Rightarrow> bool" where
  "clean_pattern pat \<longleftrightarrow>
     pat \<noteq> [] \<and> hd pat \<noteq> CHR '' '' \<and> last pat \<noteq> CHR '' ''
     \<and> list_all (\<lambda>c. c \<notin> set pat) [CHR '':'', CHR ''('', CHR '')'', CHR '','', CHR 0x0A]
     \<and> list_ex (\<lambda>c. c \<notin> set fixed_text) pat"

subsection \<open>Stopping the schedule\<close>

text \<open>\<^verbatim>\<open>stop_posting\<close>; removing the job from the queue leaves no handle in the poster.\<close>

definition stop_posting :: "poster \<Rightarrow> state_file \<Rightarrow> bool \<times> poster \<times> state_file" where
  "stop_posting p sf =
     (if \<not> is_posting p then (False, p, sf)
      else let p' = p\<lparr>posting_job := None, is_posting := False\<rparr>
           in (True, p', save_state p'))"

subsection \<open>Writing the state file\<close>

text \<open>
  Storage holds the state file and, for a scheme that uses one, a temporary file beside it.
  The operations on it are those of the Python library: opening a file for writing creates
  or empties it (an empty file is text that \<^verbatim>\<open>json.loads\<close> rejects), writing gives it its
  content, renaming moves one file onto another in one step.
  \<^verbatim>\<open>Path.write_text(data)\<close> is \<^verbatim>\<open>open(mode="w")\<close> followed by \<^verbatim>\<open>write(data)\<close>.
\<close>

datatype file_name = State_file | Temp_file

datatype fs_op = Open_w file_name | Write file_name state_file | Rename file_name file_name

fun exec_op :: "fs_op \<Rightarrow> (file_name \<Rightarrow> state_file) \<Rightarrow> (file_name \<Rightarrow> state_file)" where
  "exec_op (Open_w f) disk = disk(f := Malformed)"
| "exec_op (Write f data) disk = disk(f := data)"
| "exec_op (Rename src dst) disk = disk(dst := disk src, src := Absent)"

definition exec_ops :: "fs_op list \<Rightarrow> (file_name \<Rightarrow> state_file) \<Rightarrow> (file_name \<Rightarrow> state_file)" where
  "exec_ops ops disk = foldl (\<lambda>d op. exec_op op d) disk ops"

definition write_text :: "file_name \<Rightarrow> state_file \<Rightarrow> fs_op list" where
  "write_text f data = [Open_w f, Write f data]"

text \<open>
  The operations of \<^verbatim>\<open>_save_state\<close>, which is \<^verbatim>\<open>STATE_FILE.write_text(json.dumps({...}))\<close>;
  \<open>save_state p\<close> is the record that is dumped.
\<close>

definition save_state_ops :: "poster \<Rightarrow> fs_op list" where
  "save_state_ops p = write_text State_file (save_state p)"

text \<open>The scheme the specification names: write to a temporary file, then rename it.\<close>

definition temp_then_rename :: "state_file \<Rightarrow> fs_op list" where
  "temp_then_rename data = write_text Temp_file data @ [Rename Temp_file State_file]"

text \<open>
  What storage can hold when the process dies during the operations: the result of any
  number of them from the beginning, none and all included.
\<close>

definition crash_states ::
  "fs_op list \<Rightarrow> (file_name \<Rightarrow> state_file) \<Rightarrow> (file_name \<Rightarrow> state_file) list" where
  "crash_states ops disk = map (\<lambda>k. exec_ops (take k ops) disk) [0..<Suc (length ops)]"

definition example_disk :: "file_name \<Rightarrow> state_file" where
  "example_disk = (\<lambda>f. Absent)(State_file := save_state example_poster)"

section \<open>Properties\<close>

subsection \<open>Round-robin selection\<close>

lemma count_cyclic:
  fixes a i :: int and n :: nat
  assumes "0 < n" "0 \<le> i" "i < int n"
  shows "length (filter (\<lambda>j. (a + int j) mod int n = i) [0..<k])
         = k div n + (if nat ((i - a) mod int n) < k mod n then 1 else 0)"
proof (induction k)
  case 0
  then show ?case by simp
next
  case (Suc k)
  let ?d = "nat ((i - a) mod int n)"
  have d0: "0 \<le> (i - a) mod int n" "(i - a) mod int n < int n"
    using assms by simp_all
  then have d: "?d < n" by linarith
  have "((a + int k) mod int n = i) \<longleftrightarrow> (int k mod int n = (i - a) mod int n)"
  proof
    assume "(a + int k) mod int n = i"
    then have "(i - a) mod int n = ((a + int k) mod int n - a) mod int n" by simp
    also have "\<dots> = (a + int k - a) mod int n" by (rule mod_diff_left_eq)
    finally show "int k mod int n = (i - a) mod int n" by simp
  next
    assume h: "int k mod int n = (i - a) mod int n"
    have "(a + int k) mod int n = (a + int k mod int n) mod int n"
      by (simp add: mod_add_right_eq)
    also have "\<dots> = (a + (i - a)) mod int n"
      unfolding h by (rule mod_add_right_eq)
    finally show "(a + int k) mod int n = i" using assms by simp
  qed
  also have "\<dots> \<longleftrightarrow> (k mod n = ?d)"
    using d0 by (metis nat_int zmod_int int_nat_eq)
  finally have iff: "((a + int k) mod int n = i) \<longleftrightarrow> (k mod n = ?d)" .
  show ?case
  proof (cases "Suc (k mod n) = n")
    case True
    then have "Suc k mod n = 0" "Suc k div n = Suc (k div n)"
      by (simp_all add: mod_Suc div_Suc)
    then show ?thesis using Suc iff d True by auto
  next
    case False
    then have "Suc k mod n = Suc (k mod n)" "Suc k div n = k div n"
      by (simp_all add: mod_Suc div_Suc)
    then show ?thesis using Suc iff d False by auto
  qed
qed

lemma get_next_channel_valid:
  assumes "valid_index p"
  shows "get_next_channel p sf =
           Inr (Some (channels_list p ! nat (current_channel_index p)),
                p\<lparr>current_channel_index :=
                    (current_channel_index p + 1) mod int (length (channels_list p))\<rparr>,
                save_state (p\<lparr>current_channel_index :=
                    (current_channel_index p + 1) mod int (length (channels_list p))\<rparr>))"
  using assms by (auto simp: get_next_channel_def valid_index_def py_index_def Let_def)

lemma valid_index_step:
  assumes "valid_index p"
  shows "valid_index (p\<lparr>current_channel_index :=
                    (current_channel_index p + 1) mod int (length (channels_list p))\<rparr>)"
proof -
  have "0 < int (length (channels_list p))" using assms unfolding valid_index_def by linarith
  then show ?thesis by (simp add: valid_index_def)
qed

lemma mod_shift:
  fixes i n :: int
  shows "((i + 1) mod n + j) mod n = (i + (1 + j)) mod n"
proof -
  have "((i + 1) mod n + j) mod n = ((i + 1) + j) mod n" by (rule mod_add_left_eq)
  then show ?thesis by (simp add: add.assoc)
qed

lemma rotation_Suc:
  assumes "0 \<le> i" "i < int (length chans)"
  shows "rotation chans i (Suc k) =
         Some (chans ! nat i) # rotation chans ((i + 1) mod int (length chans)) k"
proof -
  have "[0..<Suc k] = 0 # map Suc [0..<k]"
    by (simp add: upt_conv_Cons map_Suc_upt del: upt_Suc)
  moreover have "((i + 1) mod int (length chans) + int j) mod int (length chans)
        = (i + int (Suc j)) mod int (length chans)" for j
    using mod_shift[of i "int (length chans)" "int j"] by simp
  ultimately show ?thesis
    using assms by (simp add: rotation_def comp_def del: upt_Suc)
qed

lemma next_channels_valid:
  assumes "valid_index p"
  shows "\<exists>p' sf'. next_channels k p sf =
           Inr (rotation (channels_list p) (current_channel_index p) k, p', sf')
         \<and> channels_list p' = channels_list p
         \<and> current_channel_index p' = (current_channel_index p + int k) mod int (length (channels_list p))
         \<and> (k > 0 \<longrightarrow> sf' = save_state p')"
  using assms
proof (induction k arbitrary: p sf)
  case 0
  then show ?case by (simp add: rotation_def valid_index_def)
next
  case (Suc k)
  let ?p1 = "p\<lparr>current_channel_index :=
                    (current_channel_index p + 1) mod int (length (channels_list p))\<rparr>"
  have v1: "valid_index ?p1" using Suc.prems by (rule valid_index_step)
  from Suc.IH[OF v1, of "save_state ?p1"] obtain p' sf' where
    IH: "next_channels k ?p1 (save_state ?p1) =
           Inr (rotation (channels_list ?p1) (current_channel_index ?p1) k, p', sf')"
      "channels_list p' = channels_list ?p1"
      "current_channel_index p' = (current_channel_index ?p1 + int k) mod int (length (channels_list ?p1))"
      "k > 0 \<longrightarrow> sf' = save_state p'"
    by blast
  have idx: "current_channel_index p' = (current_channel_index p + int (Suc k)) mod int (length (channels_list p))"
    using IH(3) mod_shift[of "current_channel_index p" "int (length (channels_list p))" "int k"]
    by simp
  have sf: "sf' = save_state p'"
  proof (cases k)
    case 0
    then show ?thesis using IH(1) by auto
  next
    case (Suc m)
    then show ?thesis using IH(4) by simp
  qed
  show ?case
    using Suc.prems IH(1,2) idx sf
    by (simp add: get_next_channel_valid rotation_Suc valid_index_def)
qed

text \<open>
  Claim C1. With a valid index and the (distinct) keys of the enabled channels, \<open>k\<close>
  consecutive calls of \<^verbatim>\<open>get_next_channel\<close> all succeed, return the channels in cyclic list
  order starting at the current index, and return every channel \<open>k div N\<close> or
  \<open>k div N + 1\<close> times.
\<close>

theorem round_robin_fair:
  assumes "valid_index p" and "distinct (channels_list p)"
  shows "\<exists>rs p' sf'. next_channels k p sf = Inr (rs, p', sf')
         \<and> rs = map (\<lambda>j. Some (channels_list p !
                        nat ((current_channel_index p + int j) mod int (length (channels_list p)))))
                   [0..<k]
         \<and> (\<forall>c \<in> set (channels_list p).
               count_list rs (Some c) = k div length (channels_list p)
             \<or> count_list rs (Some c) = k div length (channels_list p) + 1)"
proof -
  let ?chans = "channels_list p" and ?i = "current_channel_index p"
  let ?n = "length ?chans"
  from next_channels_valid[OF assms(1), of k sf] obtain p' sf' where
    run: "next_channels k p sf = Inr (rotation ?chans ?i k, p', sf')" by blast
  have n: "0 < ?n" using assms(1) by (auto simp: valid_index_def)
  have cnt: "count_list (rotation ?chans ?i k) (Some c) = k div ?n
           \<or> count_list (rotation ?chans ?i k) (Some c) = k div ?n + 1"
    if c: "c \<in> set ?chans" for c
  proof -
    from c obtain m where m: "m < ?n" "?chans ! m = c" by (auto simp: in_set_conv_nth)
    have pos: "nat ((?i + int j) mod int ?n) < ?n" for j
      using n by (simp add: nat_less_iff)
    have eq: "(c = (?chans ! nat ((?i + int j) mod int ?n)))
              \<longleftrightarrow> ((?i + int j) mod int ?n = int m)" for j
    proof -
      have "(?chans ! nat ((?i + int j) mod int ?n) = ?chans ! m)
            \<longleftrightarrow> nat ((?i + int j) mod int ?n) = m"
        using assms(2) pos m(1) by (simp add: nth_eq_iff_index_eq)
      moreover have "0 \<le> (?i + int j) mod int ?n" using n by simp
      ultimately show ?thesis using m(2) by auto
    qed
    have "count_list (rotation ?chans ?i k) (Some c)
          = length (filter (\<lambda>j. (?i + int j) mod int ?n = int m) [0..<k])"
      by (simp add: count_list_eq_length_filter rotation_def filter_map comp_def eq)
    also have "\<dots> = k div ?n + (if nat ((int m - ?i) mod int ?n) < k mod ?n then 1 else 0)"
      using n m(1) by (intro count_cyclic) simp_all
    finally show ?thesis by auto
  qed
  show ?thesis using run cnt unfolding rotation_def by blast
qed

theorem round_robin_fair_witness:
  "valid_index example_poster \<and> distinct (channels_list example_poster)
   \<and> (\<exists>p' sf'. next_channels 5 example_poster Absent
          = Inr ([Some ''b'', Some ''c'', Some ''a'', Some ''b'', Some ''c''], p', sf'))
   \<and> count_list [Some ''b'', Some ''c'', Some ''a'', Some ''b'', Some ''c''] (Some ''a'') = 5 div 3
   \<and> count_list [Some ''b'', Some ''c'', Some ''a'', Some ''b'', Some ''c''] (Some ''b'') = 5 div 3 + 1"
proof -
  have h1: "valid_index example_poster" by (simp add: valid_index_def example_poster_def)
  have h2: "distinct (channels_list example_poster)" by (simp add: example_poster_def)
  have e: "map (\<lambda>j. Some (channels_list example_poster !
                        nat ((current_channel_index example_poster + int j)
                              mod int (length (channels_list example_poster)))))
                   [0..<5] = [Some ''b'', Some ''c'', Some ''a'', Some ''b'', Some ''c'']"
    by (simp add: example_poster_def upt_rec)
  from round_robin_fair [OF h1 h2, of 5 Absent] e
  have "\<exists>p' sf'. next_channels 5 example_poster Absent
          = Inr ([Some ''b'', Some ''c'', Some ''a'', Some ''b'', Some ''c''], p', sf')"
    by auto
  then show ?thesis using h1 h2 by simp
qed

lemma get_next_channel_empty:
  "channels_list p = [] \<Longrightarrow> get_next_channel p sf = Inr (None, p, sf)"
  by (simp add: get_next_channel_def)

subsection \<open>Validity of the rotation index\<close>

text \<open>
  Claim C8. For a non-empty channel list the index is a position of the list after
  construction from a state file whose index is not negative, after
  \<^verbatim>\<open>get_next_channel\<close> and after a reload; every save under a valid index writes a
  non-negative index; a reload that leaves the index at or beyond the new length resets
  it to 0.
\<close>

theorem rotation_index_preserved:
  "(chans \<noteq> [] \<and> file_index_ok sf \<longrightarrow> valid_index (init_poster chans sf))
   \<and> (valid_index p \<longrightarrow>
        (\<exists>ch p' sf'. get_next_channel p sf = Inr (Some ch, p', sf')
            \<and> valid_index p' \<and> file_index_ok sf'))
   \<and> (valid_index p \<and> chans \<noteq> [] \<longrightarrow> valid_index (cmd_reload chans p))
   \<and> (current_channel_index p \<ge> int (length chans)
        \<longrightarrow> current_channel_index (cmd_reload chans p) = 0)
   \<and> (valid_index p \<longrightarrow> file_index_ok (save_state p))"
proof (intro conjI impI)
  assume "chans \<noteq> [] \<and> file_index_ok sf"
  then show "valid_index (init_poster chans sf)"
    by (cases sf)
       (auto simp: init_poster_def load_state_def valid_index_def file_index_ok_def Let_def
             split: option.splits)
next
  assume v: "valid_index p"
  let ?p1 = "p\<lparr>current_channel_index :=
                    (current_channel_index p + 1) mod int (length (channels_list p))\<rparr>"
  have "valid_index ?p1" using v by (rule valid_index_step)
  moreover from this have "file_index_ok (save_state ?p1)"
    by (simp add: file_index_ok_def save_state_def valid_index_def)
  ultimately show "\<exists>ch p' sf'. get_next_channel p sf = Inr (Some ch, p', sf')
            \<and> valid_index p' \<and> file_index_ok sf'"
    using get_next_channel_valid[OF v, of sf] by blast
next
  assume "valid_index p \<and> chans \<noteq> []"
  then show "valid_index (cmd_reload chans p)"
    by (auto simp: cmd_reload_def valid_index_def Let_def)
next
  assume "current_channel_index p \<ge> int (length chans)"
  then show "current_channel_index (cmd_reload chans p) = 0"
    by (simp add: cmd_reload_def Let_def)
next
  assume "valid_index p"
  then show "file_index_ok (save_state p)"
    by (simp add: file_index_ok_def save_state_def valid_index_def)
qed

theorem rotation_index_preserved_witness:
  "[''a'', ''b''] \<noteq> [] \<and> file_index_ok (save_state example_poster)
   \<and> valid_index example_poster
   \<and> current_channel_index example_poster \<ge> int (length [''a''])
   \<and> current_channel_index (init_poster [''a'', ''b''] (save_state example_poster)) = 1
   \<and> valid_index (init_poster [''a'', ''b''] (save_state example_poster))
   \<and> (\<exists>ch p' sf'. get_next_channel example_poster (save_state example_poster)
          = Inr (Some ch, p', sf') \<and> valid_index p' \<and> file_index_ok sf')
   \<and> valid_index (cmd_reload [''a'', ''b''] example_poster)
   \<and> current_channel_index (cmd_reload [''a''] example_poster) = 0"
proof -
  have h1: "file_index_ok (save_state example_poster)"
    by (simp add: file_index_ok_def save_state_def example_poster_def)
  have h2: "valid_index example_poster" by (simp add: valid_index_def example_poster_def)
  have h3: "current_channel_index example_poster \<ge> int (length [''a''])"
    by (simp add: example_poster_def)
  have h4: "current_channel_index (init_poster [''a'', ''b''] (save_state example_poster)) = 1"
    by (simp add: init_poster_def load_state_def save_state_def example_poster_def Let_def)
  show ?thesis
    using h1 h2 h3 h4
      rotation_index_preserved [of "[''a'', ''b'']" "save_state example_poster" example_poster]
      rotation_index_preserved [of "[''a'']" "save_state example_poster" example_poster]
    by simp
qed

subsection \<open>First tick after a start\<close>

text \<open>
  Claim C2, as the code has it. A start while not running schedules the job and saves the
  state. With the last post at \<open>T\<close>, the interval \<open>I\<close> minutes and the start at \<open>T + d\<close>,
  \<open>0 < d < 60 I\<close>, the first tick comes after \<open>60 I - d\<close> seconds, that is at \<open>T + 60 I\<close>;
  with no last post time, or with \<open>d \<ge> 60 I\<close>, it comes after the fixed 10 seconds.
\<close>

theorem start_posting_first_delay:
  assumes "\<not> is_posting p" and "post_interval_minutes cfg = Some I"
  shows "(\<exists>p'. start_posting cfg now p sf = (True, p', save_state p') \<and> is_posting p')
       \<and> (\<forall>T. last_post_time p = Some T \<and> 0 < now - T \<and> now - T < 60 * I
             \<longrightarrow> first_delay_of (start_posting cfg now p sf) = Some (60 * I - (now - T))
               \<and> now + (60 * I - (now - T)) = T + 60 * I)
       \<and> (last_post_time p = None \<or> (\<exists>T. last_post_time p = Some T \<and> now - T \<ge> 60 * I)
             \<longrightarrow> first_delay_of (start_posting cfg now p sf) = Some 10)"
  using assms
  by (auto simp: start_posting_def first_delay_of_def Let_def mult.commute split: option.splits)

theorem start_posting_first_delay_witness:
  "\<not> is_posting (example_poster\<lparr>last_post_time := Some 1000\<rparr>)
   \<and> post_interval_minutes example_config = Some 30
   \<and> last_post_time (example_poster\<lparr>last_post_time := Some 1000\<rparr>) = Some 1000
   \<and> (0::real) < 1600 - 1000 \<and> (1600::real) - 1000 < 60 * 30
   \<and> first_delay_of (start_posting example_config 1600
                        (example_poster\<lparr>last_post_time := Some 1000\<rparr>) Absent) = Some 1200
   \<and> (3000::real) - 1000 \<ge> 60 * 30
   \<and> first_delay_of (start_posting example_config 3000
                        (example_poster\<lparr>last_post_time := Some 1000\<rparr>) Absent) = Some 10"
proof -
  let ?p = "example_poster\<lparr>last_post_time := Some 1000\<rparr>"
  have h1: "\<not> is_posting ?p" by (simp add: example_poster_def)
  have h2: "post_interval_minutes example_config = Some 30" by (simp add: example_config_def)
  have h3: "last_post_time ?p = Some 1000" by simp
  from start_posting_first_delay [OF h1 h2, of 1600 Absent] h3
  have a: "first_delay_of (start_posting example_config 1600 ?p Absent) = Some 1200"
    by simp
  from start_posting_first_delay [OF h1 h2, of 3000 Absent] h3
  have b: "first_delay_of (start_posting example_config 3000 ?p Absent) = Some 10"
    by simp
  show ?thesis using h1 h2 h3 a b by simp
qed

text \<open>
  The claim as the specification words it asks for an immediate first tick (delay 0) when
  no last post time is recorded or the interval has already passed; the code waits 10
  seconds in both cases.
\<close>

theorem start_posting_not_immediate:
  "first_delay_of (start_posting example_config 5000 example_poster Absent) = Some 10
   \<and> first_delay_of (start_posting example_config 5000 example_poster Absent) \<noteq> Some 0
   \<and> first_delay_of (start_posting example_config 5000
                        (example_poster\<lparr>last_post_time := Some 1000\<rparr>) Absent) = Some 10
   \<and> first_delay_of (start_posting example_config 5000
                        (example_poster\<lparr>last_post_time := Some 1000\<rparr>) Absent)
       \<noteq> Some (max 0 (30 * 60 - (5000 - 1000)))"
  by (simp add: start_posting_def first_delay_of_def example_config_def example_poster_def Let_def)


subsection \<open>Failure hints\<close>

lemma lower_append: "lower (a @ b) = lower a @ lower b"
  by (simp add: lower_def)

lemma sublist_in_details:
  assumes "sublist pat (lower (api_err_text err))"
  shows "sublist pat (lower (send_failed_details file_name st_size category err))"
proof -
  define head where
    "head = txt_file @ file_name @ '' ('' @ py_str st_size @ txt_bytes_category @ category
            @ txt_api_error"
  from assms obtain u v where uv: "lower (api_err_text err) = u @ pat @ v"
    by (auto simp: sublist_def)
  have "send_failed_details file_name st_size category err = head @ api_err_text err"
    by (simp add: send_failed_details_def head_def)
  then have "lower (send_failed_details file_name st_size category err)
             = (lower head @ u) @ pat @ v"
    by (simp add: lower_append uv)
  then show ?thesis unfolding sublist_def by blast
qed

lemma sublist_sep:
  assumes "c \<notin> set pat" and "sublist pat (a @ c # b)"
  shows "sublist pat a \<or> sublist pat b"
proof -
  from assms(2) consider "sublist pat a" | "sublist pat (c # b)"
    | xs1 xs2 where "pat = xs1 @ xs2" "suffix xs1 a" "prefix xs2 (c # b)"
    unfolding sublist_append by blast
  then show ?thesis
  proof cases
    case 1
    then show ?thesis by simp
  next
    case 2
    then have "prefix pat (c # b) \<or> sublist pat b" by (simp add: sublist_Cons_right)
    then show ?thesis
    proof
      assume "prefix pat (c # b)"
      then have "pat = []" using assms(1) by (cases pat) auto
      then show ?thesis by simp
    qed simp
  next
    case 3
    from 3(3) have "xs2 = []" using assms(1) 3(1) by (cases xs2) auto
    then have "suffix pat a" using 3(1,2) by simp
    then show ?thesis by (auto simp: suffix_def)
  qed
qed

lemma sublist_lead:
  assumes "pat \<noteq> []" and "hd pat \<noteq> c" and "sublist pat (c # x)"
  shows "sublist pat x"
proof -
  from assms(3) have "prefix pat (c # x) \<or> sublist pat x" by (simp add: sublist_Cons_right)
  then show ?thesis
  proof
    assume "prefix pat (c # x)"
    then show ?thesis using assms(1,2) by (cases pat) auto
  qed simp
qed

lemma sublist_trail:
  assumes "pat \<noteq> []" and "last pat \<noteq> c" and "sublist pat (x @ [c])"
  shows "sublist pat x"
proof -
  have "sublist (rev pat) (c # rev x)" using assms(3) sublist_rev[of pat "x @ [c]"] by simp
  moreover have "rev pat \<noteq> []" "hd (rev pat) \<noteq> c" using assms(1,2) by (simp_all add: hd_rev)
  ultimately have "sublist (rev pat) (rev x)" by (rule sublist_lead[rotated 2])
  then show ?thesis by simp
qed

lemma sublist_alien:
  assumes "list_ex (\<lambda>c. c \<notin> A) pat" and "set s \<subseteq> A"
  shows "\<not> sublist pat s"
proof
  assume "sublist pat s"
  then have "set pat \<subseteq> A" using assms(2) set_mono_sublist by blast
  then show False using assms(1) by (auto simp: list_ex_iff)
qed

lemma set_lower_mono: "set s \<subseteq> set t \<Longrightarrow> set (lower s) \<subseteq> set (lower t)"
  by (auto simp: lower_def)

lemma digit_in_digits: "d < 10 \<Longrightarrow> digit d \<in> set ''0123456789''"
proof -
  have all: "list_all (\<lambda>d. digit d \<in> set ''0123456789'') [0, 1, 2, 3, 4, 5, 6, 7, 8, 9]"
    by code_simp
  assume "d < 10"
  then have "d \<in> set [0, 1, 2, 3, 4, 5, 6, 7, 8, 9]" by auto
  then show ?thesis using all unfolding list_all_iff by blast
qed

lemma py_str_digits: "set (py_str n) \<subseteq> set ''0123456789''"
proof (induction n rule: py_str.induct)
  case (1 n)
  show ?case
  proof (cases "n < 10")
    case True
    then show ?thesis using digit_in_digits[of n] by (subst py_str.simps) simp
  next
    case False
    have "n mod 10 < 10" by simp
    from digit_in_digits[OF this] "1.IH"[OF False] False
    show ?thesis by (subst py_str.simps) simp
  qed
qed

lemma details_only_in_parts:
  assumes "clean_pattern pat"
    and "sublist pat (lower (send_failed_details file_name st_size category err))"
  shows "sublist pat (lower file_name) \<or> sublist pat (lower category)
         \<or> sublist pat (lower (api_err_text err))"
proof -
  define F where "F = take 8 txt_file"
  define B1 where "B1 = take 9 txt_bytes_category"
  define B2 where "B2 = take 19 (drop 11 txt_bytes_category)"
  define E1 where "E1 = take 16 (drop 1 txt_api_error)"
  have tf: "txt_file = F @ '': ''"
    and tb: "txt_bytes_category = B1 @ ''),'' @ B2 @ '': ''"
    and te: "txt_api_error = CHR 0x0A # E1 @ '': ''"
    by (simp_all add: F_def B1_def B2_def E1_def txt_file_def txt_bytes_category_def
                      txt_api_error_def)
  have ne: "pat \<noteq> []" and hd: "hd pat \<noteq> CHR '' ''" and la: "last pat \<noteq> CHR '' ''"
    and s1: "CHR '':'' \<notin> set pat" and s2: "CHR ''('' \<notin> set pat" and s3: "CHR '')'' \<notin> set pat"
    and s4: "CHR '','' \<notin> set pat" and s5: "CHR 0x0A \<notin> set pat"
    and al: "list_ex (\<lambda>c. c \<notin> set fixed_text) pat"
    using assms(1) by (simp_all add: clean_pattern_def)
  have whole: "set (txt_file @ '' (0123456789'' @ txt_bytes_category @ txt_api_error)
               = set txt_file \<union> set '' (0123456789'' \<union> set txt_bytes_category
                 \<union> set txt_api_error"
    by (simp only: set_append Un_assoc)
  have fx: "set (lower s) \<subseteq> set fixed_text"
    if "set s \<subseteq> set txt_file \<union> set '' (0123456789'' \<union> set txt_bytes_category
                 \<union> set txt_api_error" for s
    unfolding fixed_text_def using that whole by (intro set_lower_mono) simp
  have sF: "set F \<subseteq> set txt_file" unfolding F_def by (rule set_take_subset)
  have sB1: "set B1 \<subseteq> set txt_bytes_category" unfolding B1_def by (rule set_take_subset)
  have sB2: "set B2 \<subseteq> set txt_bytes_category"
    unfolding B2_def using set_take_subset set_drop_subset by fast
  have sE1: "set E1 \<subseteq> set txt_api_error"
    unfolding E1_def using set_take_subset set_drop_subset by fast
  have nF: "\<not> sublist pat (lower F)"
    by (rule sublist_alien[OF al fx]) (use sF in auto)
  have nZ: "\<not> sublist pat (lower (py_str st_size @ B1))"
    by (rule sublist_alien[OF al fx]) (use sB1 py_str_digits[of st_size] in auto)
  have nB: "\<not> sublist pat (lower B2)"
    by (rule sublist_alien[OF al fx]) (use sB2 in auto)
  have nE: "\<not> sublist pat (lower E1)"
    by (rule sublist_alien[OF al fx]) (use sE1 in auto)
  have sep: "lower [c] = [c]" if "c \<in> set '':(), '' \<or> c = CHR 0x0A" for c
    using that by (auto simp: lower_def lower_char_def)
  have shape: "lower (send_failed_details file_name st_size category err)
      = lower F @ CHR '':'' #
          ((CHR '' '' # lower file_name @ '' '') @ CHR ''('' #
             (lower (py_str st_size @ B1) @ CHR '')'' #
                (CHR '','' #
                   (lower B2 @ CHR '':'' #
                      ((CHR '' '' # lower category) @ CHR 0x0A #
                         (lower E1 @ CHR '':'' # (CHR '' '' # lower (api_err_text err))))))))"
    unfolding send_failed_details_def tf tb te
    by (simp add: lower_append) (simp add: lower_def lower_char_def)
  from assms(2) have r1: "sublist pat
          ((CHR '' '' # lower file_name @ '' '') @ CHR ''('' #
             (lower (py_str st_size @ B1) @ CHR '')'' #
                (CHR '','' #
                   (lower B2 @ CHR '':'' #
                      ((CHR '' '' # lower category) @ CHR 0x0A #
                         (lower E1 @ CHR '':'' # (CHR '' '' # lower (api_err_text err))))))))"
    unfolding shape using sublist_sep[OF s1] nF by blast
  show ?thesis
  proof (rule disjE[OF sublist_sep[OF s2 r1]])
    assume "sublist pat (CHR '' '' # lower file_name @ '' '')"
    then have "sublist pat (lower file_name @ '' '')" by (rule sublist_lead[OF ne hd])
    then have "sublist pat (lower file_name)" by (rule sublist_trail[OF ne la])
    then show ?thesis by simp
  next
    assume "sublist pat (lower (py_str st_size @ B1) @ CHR '')'' #
                (CHR '','' #
                   (lower B2 @ CHR '':'' #
                      ((CHR '' '' # lower category) @ CHR 0x0A #
                         (lower E1 @ CHR '':'' # (CHR '' '' # lower (api_err_text err)))))))"
    from sublist_sep[OF s3 this] nZ
    have "sublist pat (CHR '','' #
                   (lower B2 @ CHR '':'' #
                      ((CHR '' '' # lower category) @ CHR 0x0A #
                         (lower E1 @ CHR '':'' # (CHR '' '' # lower (api_err_text err))))))"
      by blast
    moreover have "hd pat \<noteq> CHR '',''" using s4 ne by (cases pat) auto
    ultimately have "sublist pat (lower B2 @ CHR '':'' #
                      ((CHR '' '' # lower category) @ CHR 0x0A #
                         (lower E1 @ CHR '':'' # (CHR '' '' # lower (api_err_text err)))))"
      using sublist_lead[OF ne] by blast
    from sublist_sep[OF s1 this] nB
    have "sublist pat ((CHR '' '' # lower category) @ CHR 0x0A #
                         (lower E1 @ CHR '':'' # (CHR '' '' # lower (api_err_text err))))"
      by blast
    from sublist_sep[OF s5 this] show ?thesis
    proof
      assume "sublist pat (CHR '' '' # lower category)"
      then have "sublist pat (lower category)" by (rule sublist_lead[OF ne hd])
      then show ?thesis by simp
    next
      assume "sublist pat (lower E1 @ CHR '':'' # (CHR '' '' # lower (api_err_text err)))"
      from sublist_sep[OF s1 this] nE
      have "sublist pat (CHR '' '' # lower (api_err_text err))" by blast
      then have "sublist pat (lower (api_err_text err))" by (rule sublist_lead[OF ne hd])
      then show ?thesis by simp
    qed
  qed
qed

lemma patterns_clean: "list_all clean_pattern patterns"
  by code_simp

lemma api_hint_table:
  "api_hint r details =
     (if r = Send_failed then first_match hint_table (lower details) else None)"
  by (simp add: api_hint_def hint_table_def Let_def)

lemma first_match_cong:
  assumes "\<forall>pat \<in> set (concat (map fst tbl)). sublist pat s \<longleftrightarrow> sublist pat t"
  shows "first_match tbl s = first_match tbl t"
  using assms
proof (induction tbl)
  case Nil
  then show ?case by simp
next
  case (Cons e tbl)
  obtain pats h where e: "e = (pats, h)" by (cases e)
  have "list_ex (\<lambda>pat. sublist pat s) pats = list_ex (\<lambda>pat. sublist pat t) pats"
    using Cons.prems e by (auto simp: list_ex_iff)
  moreover have "first_match tbl s = first_match tbl t"
    using Cons.IH Cons.prems by simp
  ultimately show ?case using e by simp
qed

text \<open>
  Claim C5, as the code has it by design. A hint is given for \<^verbatim>\<open>send_failed\<close> only. When
  no pattern of the table occurs in the lower-cased file name or category, the hint is that
  of the first entry of the table one of whose patterns occurs in the lower-cased transport
  error text, and there is none when no entry matches; the patterns of the second entry
  are "bot was kicked" and "bot is not a member".
\<close>

theorem api_hint_by_error_text:
  assumes "\<forall>pat \<in> set patterns. \<not> sublist pat (lower file_name) \<and> \<not> sublist pat (lower category)"
  shows "api_hint r (send_failed_details file_name st_size category err)
         = (if r = Send_failed then first_match hint_table (lower (api_err_text err)) else None)"
proof -
  have "sublist pat (lower (send_failed_details file_name st_size category err))
        \<longleftrightarrow> sublist pat (lower (api_err_text err))"
    if p: "pat \<in> set patterns" for pat
  proof
    assume "sublist pat (lower (send_failed_details file_name st_size category err))"
    moreover have "clean_pattern pat" using patterns_clean p by (simp add: list_all_iff)
    ultimately show "sublist pat (lower (api_err_text err))"
      using details_only_in_parts assms p by blast
  next
    assume "sublist pat (lower (api_err_text err))"
    then show "sublist pat (lower (send_failed_details file_name st_size category err))"
      by (rule sublist_in_details)
  qed
  then have "first_match hint_table (lower (send_failed_details file_name st_size category err))
             = first_match hint_table (lower (api_err_text err))"
    by (intro first_match_cong) (simp add: patterns_def)
  then show ?thesis by (simp add: api_hint_table)
qed

theorem api_hint_by_error_text_witness:
  "list_all (\<lambda>pat. \<not> sublist pat (lower ''a.jpg'') \<and> \<not> sublist pat (lower ''cat'')) patterns
   \<and> api_err_text (Some ''Forbidden: bot was kicked from the channel chat'')
       = ''Forbidden: bot was kicked from the channel chat''
   \<and> api_hint Send_failed
       (send_failed_details ''a.jpg'' 5 ''cat''
          (Some ''Forbidden: bot was kicked from the channel chat''))
     = Some Hint_bot_excluded
   \<and> api_hint Send_failed (send_failed_details ''a.jpg'' 5 ''cat'' (Some ''Timed out'')) = None"
proof -
  have h: "list_all (\<lambda>pat. \<not> sublist pat (lower ''a.jpg'') \<and> \<not> sublist pat (lower ''cat''))
             patterns"
    by code_simp
  then have h': "\<forall>pat \<in> set patterns.
                   \<not> sublist pat (lower ''a.jpg'') \<and> \<not> sublist pat (lower ''cat'')"
    by (simp add: list_all_iff)
  have e: "api_err_text (Some ''Forbidden: bot was kicked from the channel chat'')
           = ''Forbidden: bot was kicked from the channel chat''"
    by (simp add: api_err_text_def)
  have v1: "first_match hint_table
              (lower (api_err_text (Some ''Forbidden: bot was kicked from the channel chat'')))
            = Some Hint_bot_excluded"
    by code_simp
  have v2: "first_match hint_table (lower (api_err_text (Some ''Timed out''))) = None"
    by code_simp
  from api_hint_by_error_text [OF h', of Send_failed 5
         "Some ''Forbidden: bot was kicked from the channel chat''"]
       api_hint_by_error_text [OF h', of Send_failed 5 "Some ''Timed out''"]
  show ?thesis using h e v1 v2 by simp
qed

text \<open>
  The claim as the specification words it takes "kicked" alone for a pattern: an error
  text with "kicked" but without "bot was kicked" gets no hint.
\<close>

theorem api_hint_kicked_no_hint:
  "sublist ''kicked'' (lower ''User was kicked'')
   \<and> api_hint Send_failed (send_failed_details ''a.jpg'' 5 ''cat'' (Some ''User was kicked''))
     = None"
  by code_simp

subsection \<open>Collision-avoiding file names\<close>

lemma first_free_spec:
  "candidate stem sfx (first_free directory stem sfx c) \<notin> set directory
   \<and> c \<le> first_free directory stem sfx c
   \<and> (\<forall>k. c \<le> k \<and> k < first_free directory stem sfx c
          \<longrightarrow> candidate stem sfx k \<in> set directory)"
proof (induction directory stem sfx c rule: first_free.induct)
  case (1 directory stem sfx c)
  show ?case
  proof (cases "candidate stem sfx c \<in> set directory")
    case True
    then have eq: "first_free directory stem sfx c = first_free directory stem sfx (c + 1)"
      by (simp add: first_free.simps[of directory stem sfx c])
    from "1.IH"[OF True] show ?thesis
      unfolding eq using True
      by (metis Suc_eq_plus1 Suc_leD le_antisym not_less_eq_eq)
  next
    case False
    then show ?thesis by (auto simp: first_free.simps[of directory stem sfx c])
  qed
qed

lemma stem_suffix: "py_stem name @ py_suffix name = name"
  by (auto simp: py_stem_def py_suffix_def)

text \<open>
  Claim C7. The generated name is never the name of an entry of the directory. A free
  suggested name is returned as it is; a taken one becomes stem, underscore, counter,
  suffix with the least counter from 1 whose name is free. After a first file has been
  written under its generated name, the name generated for the same suggestion differs
  from it and from every other entry.
\<close>

theorem generate_unique_filename_free:
  "generate_unique_filename directory filename \<notin> set directory
   \<and> (filename \<notin> set directory \<longrightarrow> generate_unique_filename directory filename = filename)
   \<and> (filename \<in> set directory \<longrightarrow>
        (\<exists>c \<ge> 1. generate_unique_filename directory filename
                   = py_stem filename @ ''_'' @ py_str c @ py_suffix filename
               \<and> (\<forall>k. 1 \<le> k \<and> k < c \<longrightarrow>
                      py_stem filename @ ''_'' @ py_str k @ py_suffix filename \<in> set directory)))
   \<and> generate_unique_filename (generate_unique_filename directory filename # directory) filename
       \<notin> set (generate_unique_filename directory filename # directory)"
proof (intro conjI impI)
  show free: "generate_unique_filename directory filename \<notin> set directory" for directory
    using first_free_spec[of "py_stem filename" "py_suffix filename" directory 1]
    by (simp add: generate_unique_filename_def)
  show "generate_unique_filename (generate_unique_filename directory filename # directory) filename
       \<notin> set (generate_unique_filename directory filename # directory)"
    by (rule free)
next
  assume "filename \<notin> set directory"
  then show "generate_unique_filename directory filename = filename"
    by (simp add: generate_unique_filename_def)
next
  assume taken: "filename \<in> set directory"
  let ?c = "first_free directory (py_stem filename) (py_suffix filename) 1"
  have "1 \<le> ?c"
    and "\<forall>k. 1 \<le> k \<and> k < ?c \<longrightarrow>
            py_stem filename @ ''_'' @ py_str k @ py_suffix filename \<in> set directory"
    using first_free_spec[of "py_stem filename" "py_suffix filename" directory 1]
    by (simp_all add: candidate_def)
  moreover have "generate_unique_filename directory filename
                 = py_stem filename @ ''_'' @ py_str ?c @ py_suffix filename"
    using taken by (simp add: generate_unique_filename_def candidate_def)
  ultimately show "\<exists>c \<ge> 1. generate_unique_filename directory filename
                   = py_stem filename @ ''_'' @ py_str c @ py_suffix filename
               \<and> (\<forall>k. 1 \<le> k \<and> k < c \<longrightarrow>
                      py_stem filename @ ''_'' @ py_str k @ py_suffix filename \<in> set directory)"
    by blast
qed


theorem generate_unique_filename_free_witness:
  "''b.png'' \<notin> set [''a.jpg'', ''a_1.jpg'']
   \<and> ''a.jpg'' \<in> set [''a.jpg'', ''a_1.jpg'']
   \<and> generate_unique_filename [''a.jpg'', ''a_1.jpg''] ''b.png'' = ''b.png''
   \<and> generate_unique_filename [''a.jpg'', ''a_1.jpg''] ''a.jpg'' = ''a_2.jpg''
   \<and> generate_unique_filename [''a.jpg'', ''a_1.jpg''] ''a.jpg'' \<notin> set [''a.jpg'', ''a_1.jpg'']"
proof -
  have s: "py_stem ''a.jpg'' = ''a''" "py_suffix ''a.jpg'' = ''.jpg''"
    by (simp_all add: py_stem_def py_suffix_def after_dot_def)
  have f: "first_free [''a.jpg'', ''a_1.jpg''] ''a'' ''.jpg'' 1 = 2"
    by code_simp
  have v: "generate_unique_filename [''a.jpg'', ''a_1.jpg''] ''a.jpg'' = ''a_2.jpg''"
    by code_simp
  from generate_unique_filename_free [of "[''a.jpg'', ''a_1.jpg'']" "''b.png''"]
       generate_unique_filename_free [of "[''a.jpg'', ''a_1.jpg'']" "''a.jpg''"]
  show ?thesis using v by simp
qed

subsection \<open>Low-content monitor\<close>

lemma warn_loop_warned:
  "snd (warn_loop cfg low (alerts, warned)) = warned \<union> fst ` set low"
proof (induction low arbitrary: alerts warned)
  case Nil
  then show ?case by simp
next
  case (Cons x low)
  obtain ch_key count where x: "x = (ch_key, count)" by (cases x)
  show ?case
  proof (cases "ch_key \<in> warned")
    case True
    then show ?thesis using Cons.IH[of alerts warned] x by auto
  next
    case False
    then show ?thesis
      using Cons.IH[of "alerts @ [\<lparr>alert_channel = ch_key, alert_count = count,
                          alert_threshold = threshold_of cfg,
                          alert_recipients = admin_ids cfg\<rparr>]" "insert ch_key warned"] x
      by auto
  qed
qed

lemma warn_loop_alerts:
  "distinct (map fst low) \<Longrightarrow>
   fst (warn_loop cfg low (alerts, warned))
     = alerts @ map (\<lambda>(ch_key, count).
                      \<lparr>alert_channel = ch_key, alert_count = count,
                       alert_threshold = threshold_of cfg, alert_recipients = admin_ids cfg\<rparr>)
                  (filter (\<lambda>(ch_key, count). ch_key \<notin> warned) low)"
proof (induction low arbitrary: alerts warned)
  case Nil
  then show ?case by simp
next
  case (Cons x low)
  obtain ch_key count where x: "x = (ch_key, count)" by (cases x)
  have fresh: "ch_key \<notin> fst ` set low" and d: "distinct (map fst low)"
    using Cons.prems x by auto
  have same: "filter (\<lambda>(k, c). k \<noteq> ch_key \<and> k \<notin> warned) low
              = filter (\<lambda>(k, c). k \<notin> warned) low"
    using fresh by (intro filter_cong) (auto simp: image_iff)
  show ?case
    using Cons.IH[OF d] by (simp add: x same)
qed

lemma low_distinct:
  "distinct (map fst stats) \<Longrightarrow> distinct (map fst (get_low_content_channels th stats))"
  by (simp add: get_low_content_channels_def distinct_map_filter)

lemma low_keys:
  assumes "distinct (map fst stats)"
  shows "ch_key \<in> fst ` set (get_low_content_channels (threshold_of cfg) stats)
         \<longleftrightarrow> below cfg stats ch_key"
proof -
  have "ch_key \<in> fst ` set (get_low_content_channels (threshold_of cfg) stats)
        \<longleftrightarrow> (\<exists>c. (ch_key, c) \<in> set stats \<and> c < threshold_of cfg)"
    by (auto simp: get_low_content_channels_def image_iff)
  also have "\<dots> \<longleftrightarrow> (\<exists>c. map_of stats ch_key = Some c \<and> c < threshold_of cfg)"
    using assms by (simp add: map_of_eq_Some_iff)
  also have "\<dots> \<longleftrightarrow> below cfg stats ch_key"
    by (auto simp: below_def split: option.splits)
  finally show ?thesis .
qed

lemma check_warned:
  assumes "distinct (map fst stats)"
  shows "ch_key \<in> low_content_warned (snd (check_low_content cfg stats p))
         \<longleftrightarrow> below cfg stats ch_key"
proof -
  let ?low = "get_low_content_channels (threshold_of cfg) stats"
  have "low_content_warned (snd (check_low_content cfg stats p))
        = Set.filter (\<lambda>k. k \<in> fst ` set ?low)
            (snd (warn_loop cfg ?low ([], low_content_warned p)))"
    by (simp add: check_low_content_def Let_def split: prod.splits)
  also have "\<dots> = fst ` set ?low"
    unfolding warn_loop_warned by auto
  finally show ?thesis using low_keys[OF assms] by simp
qed

lemma check_alerts:
  assumes "distinct (map fst stats)"
  shows "filter (\<lambda>a. alert_channel a = ch_key) (fst (check_low_content cfg stats p))
         = (if below cfg stats ch_key \<and> ch_key \<notin> low_content_warned p
            then [\<lparr>alert_channel = ch_key, alert_count = the (map_of stats ch_key),
                   alert_threshold = threshold_of cfg, alert_recipients = admin_ids cfg\<rparr>]
            else [])"
proof -
  let ?low = "get_low_content_channels (threshold_of cfg) stats"
  let ?mk = "\<lambda>(k, c). \<lparr>alert_channel = k, alert_count = c,
                       alert_threshold = threshold_of cfg, alert_recipients = admin_ids cfg\<rparr>"
  have "fst (check_low_content cfg stats p) = fst (warn_loop cfg ?low ([], low_content_warned p))"
    by (simp add: check_low_content_def Let_def split: prod.splits)
  also have "\<dots> = map ?mk (filter (\<lambda>(k, c). k \<notin> low_content_warned p) ?low)"
    using warn_loop_alerts[OF low_distinct[OF assms], of cfg "threshold_of cfg" "[]"] by simp
  finally have a: "fst (check_low_content cfg stats p)
      = map ?mk (filter (\<lambda>(k, c). k \<notin> low_content_warned p \<and> c < threshold_of cfg) stats)"
    by (simp add: get_low_content_channels_def case_prod_unfold conj_commute)
  have sel: "filter (\<lambda>a. alert_channel a = ch_key) (map ?mk xs)
             = map ?mk (filter (\<lambda>(k, c). k = ch_key) xs)" for xs
    by (induction xs) auto
  have one: "filter (\<lambda>(k, c). k = ch_key) (filter Q xs)
             = (case map_of xs ch_key of
                  None \<Rightarrow> []
                | Some c \<Rightarrow> if Q (ch_key, c) then [(ch_key, c)] else [])"
    if "distinct (map fst xs)" for xs :: "(string \<times> int) list" and Q
    using that
  proof (induction xs)
    case Nil
    then show ?case by simp
  next
    case (Cons x xs)
    obtain k c where x: "x = (k, c)" by (cases x)
    show ?case
    proof (cases "k = ch_key")
      case True
      then have "map_of xs ch_key = None"
        using Cons.prems x by (simp add: map_of_eq_None_iff)
      then show ?thesis using Cons x True by simp
    next
      case False
      then show ?thesis using Cons x by simp
    qed
  qed
  show ?thesis
    unfolding a sel one[OF assms]
    by (auto simp: below_def split: option.splits)
qed

text \<open>
  Claim C6. Over any sequence of checks on snapshots with distinct channel keys, a check
  sends an alert for a channel exactly when the channel is below the threshold in this
  snapshot and was not below it in the snapshot of the check before (for the first check: is
  not in the warned set it starts from); the alert is then sent once. After every check the
  warned set holds exactly the channels below the threshold in its snapshot.
\<close>

theorem low_content_edge_triggered:
  assumes "\<forall>stats \<in> set snaps. distinct (map fst stats)" and "i < length snaps"
  shows "filter (\<lambda>a. alert_channel a = ch_key) (fst (run_checks cfg p snaps ! i))
         = (if below cfg (snaps ! i) ch_key
               \<and> \<not> (if i = 0 then ch_key \<in> low_content_warned p
                      else below cfg (snaps ! (i - 1)) ch_key)
            then [\<lparr>alert_channel = ch_key, alert_count = the (map_of (snaps ! i) ch_key),
                   alert_threshold = threshold_of cfg, alert_recipients = admin_ids cfg\<rparr>]
            else [])
       \<and> (ch_key \<in> snd (run_checks cfg p snaps ! i) \<longleftrightarrow> below cfg (snaps ! i) ch_key)"
  using assms
proof (induction snaps arbitrary: p i)
  case Nil
  then show ?case by simp
next
  case (Cons stats rest)
  have d: "distinct (map fst stats)" using Cons.prems(1) by simp
  obtain alerts p' where c: "check_low_content cfg stats p = (alerts, p')"
    by (cases "check_low_content cfg stats p")
  have w: "ch_key \<in> low_content_warned p' \<longleftrightarrow> below cfg stats ch_key"
    using check_warned[OF d, of ch_key cfg p] c by simp
  have a: "filter (\<lambda>a. alert_channel a = ch_key) alerts
         = (if below cfg stats ch_key \<and> ch_key \<notin> low_content_warned p
            then [\<lparr>alert_channel = ch_key, alert_count = the (map_of stats ch_key),
                   alert_threshold = threshold_of cfg, alert_recipients = admin_ids cfg\<rparr>]
            else [])"
    using check_alerts[OF d, of ch_key cfg p] c by simp
  show ?case
  proof (cases i)
    case 0
    then show ?thesis using a w c by simp
  next
    case (Suc j)
    have j: "j < length rest" using Cons.prems(2) Suc by simp
    have r: "\<forall>stats \<in> set rest. distinct (map fst stats)" using Cons.prems(1) by simp
    have prev: "(if j = 0 then ch_key \<in> low_content_warned p'
                 else below cfg (rest ! (j - 1)) ch_key)
                = below cfg ((stats # rest) ! j) ch_key"
      using w by (cases j) simp_all
    show ?thesis
      using Cons.IH[OF r j, of p'] c Suc prev by simp
  qed
qed

theorem low_content_edge_triggered_witness:
  "map (\<lambda>r. map alert_count (fst r))
       (run_checks example_config example_poster
          [[(''a'', 12)], [(''a'', 8)], [(''a'', 8)], [(''a'', 8)], [(''a'', 8)],
           [(''a'', 11)], [(''a'', 9)]])
   = [[], [8], [], [], [], [], [9]]
   \<and> filter (\<lambda>a. alert_channel a = ''a'')
        (fst (run_checks example_config example_poster
                [[(''a'', 12)], [(''a'', 8)], [(''a'', 8)], [(''a'', 8)], [(''a'', 8)],
                 [(''a'', 11)], [(''a'', 9)]] ! 6))
     = [\<lparr>alert_channel = ''a'', alert_count = 9, alert_threshold = 10, alert_recipients = [1]\<rparr>]
   \<and> ''a'' \<in> snd (run_checks example_config example_poster
                [[(''a'', 12)], [(''a'', 8)], [(''a'', 8)], [(''a'', 8)], [(''a'', 8)],
                 [(''a'', 11)], [(''a'', 9)]] ! 6)"
proof -
  let ?snaps = "[[(''a'', 12)], [(''a'', 8)], [(''a'', 8)], [(''a'', 8)], [(''a'', 8)],
                 [(''a'', 11)], [(''a'', 9::int)]]"
  have h1: "\<forall>stats \<in> set ?snaps. distinct (map fst stats)" by simp
  have h2: "6 < length ?snaps" by simp
  have th: "threshold_of example_config = 10" "admin_ids example_config = [1]"
    by (simp_all add: threshold_of_def example_config_def DEFAULT_LOW_CONTENT_THRESHOLD_def)
  have b: "below example_config (?snaps ! 6) ''a''" "\<not> below example_config (?snaps ! (6 - 1)) ''a''"
    by (simp_all add: below_def th)
  have tr: "map (\<lambda>r. map alert_count (fst r)) (run_checks example_config example_poster ?snaps)
            = [[], [8], [], [], [], [], [9]]"
    by (simp add: check_low_content_def get_low_content_channels_def th Let_def
                  example_poster_def)
  from low_content_edge_triggered [OF h1 h2, of "''a''" example_config example_poster]
  show ?thesis using b tr th by simp
qed

subsection \<open>A tick without content\<close>

lemma barren_month:
  assumes "case map_of (snd month) ch of
             None \<Rightarrow> True
           | Some (File s) \<Rightarrow> False
           | Some (Dir ces) \<Rightarrow>
               list_all (\<lambda>(cat, nd). case nd of
                            File s \<Rightarrow> True
                          | Dir fes \<Rightarrow> list_all (\<lambda>(f, nd'). \<not> supported cfg f) fes) ces"
  shows "\<exists>ds. month_cat_dirs ch month = Inr ds
              \<and> (\<forall>d \<in> set ds. filter (\<lambda>(f, nd). supported cfg f) (snd (snd d)) = [])"
proof (cases "map_of (snd month) ch")
  case None
  then show ?thesis by (simp add: month_cat_dirs_def)
next
  case (Some nd)
  show ?thesis
  proof (cases nd)
    case (File s)
    then show ?thesis using assms Some by simp
  next
    case (Dir ces)
    have all: "list_all (\<lambda>(cat, nd). case nd of
                            File s \<Rightarrow> True
                          | Dir fes \<Rightarrow> list_all (\<lambda>(f, nd'). \<not> supported cfg f) fes) ces"
      using assms Some Dir by simp
    have empty: "filter (\<lambda>(f, nd). supported cfg f) fes = []"
      if "(cat, Dir fes) \<in> set ces" for cat fes
    proof -
      from all have "\<forall>x \<in> set ces. (\<lambda>(cat, nd). case nd of
                            File s \<Rightarrow> True
                          | Dir fes \<Rightarrow> list_all (\<lambda>(f, nd'). \<not> supported cfg f) fes) x"
        by (simp add: list_all_iff)
      from this[rule_format, OF that]
      have "list_all (\<lambda>(f, nd'). \<not> supported cfg f) fes" by simp
      then show ?thesis by (auto simp: list_all_iff filter_empty_conv)
    qed
    have run: "month_cat_dirs ch month
               = Inr (concat (map (\<lambda>(cat, nd). case nd of Dir fes \<Rightarrow> [(fst month, cat, fes)]
                                          | File s \<Rightarrow> []) ces))"
      using Some Dir by (simp add: month_cat_dirs_def)
    have "filter (\<lambda>(f, nd). supported cfg f) (snd (snd d)) = []"
      if "d \<in> set (concat (map (\<lambda>(cat, nd). case nd of Dir fes \<Rightarrow> [(fst month, cat, fes)]
                                          | File s \<Rightarrow> []) ces))" for d
    proof -
      from that obtain cat fes where "(cat, Dir fes) \<in> set ces" "d = (fst month, cat, fes)"
        by (auto split: node.splits)
      then show ?thesis using empty by simp
    qed
    then show ?thesis using run by blast
  qed
qed

lemma barren_channel:
  assumes "list_all (\<lambda>(month, mes).
              case map_of mes ch of
                None \<Rightarrow> True
              | Some (File s) \<Rightarrow> False
              | Some (Dir ces) \<Rightarrow>
                  list_all (\<lambda>(cat, nd). case nd of
                               File s \<Rightarrow> True
                             | Dir fes \<Rightarrow> list_all (\<lambda>(f, nd'). \<not> supported cfg f) fes) ces)
            months"
  shows "\<exists>ds. channel_cat_dirs ch months = Inr ds
              \<and> (\<forall>d \<in> set ds. filter (\<lambda>(f, nd). supported cfg f) (snd (snd d)) = [])"
  using assms
proof (induction months)
  case Nil
  then show ?case by simp
next
  case (Cons month months)
  from Cons.prems have "case map_of (snd month) ch of
             None \<Rightarrow> True
           | Some (File s) \<Rightarrow> False
           | Some (Dir ces) \<Rightarrow>
               list_all (\<lambda>(cat, nd). case nd of
                            File s \<Rightarrow> True
                          | Dir fes \<Rightarrow> list_all (\<lambda>(f, nd'). \<not> supported cfg f) fes) ces"
    by (cases month) simp
  from barren_month[OF this] obtain ds where
    m: "month_cat_dirs ch month = Inr ds"
       "\<forall>d \<in> set ds. filter (\<lambda>(f, nd). supported cfg f) (snd (snd d)) = []"
    by blast
  from Cons.IH Cons.prems obtain ds' where
    r: "channel_cat_dirs ch months = Inr ds'"
       "\<forall>d \<in> set ds'. filter (\<lambda>(f, nd). supported cfg f) (snd (snd d)) = []"
    by auto
  show ?case using m r by auto
qed

lemma barren_images:
  assumes "\<forall>d \<in> set ds. filter (\<lambda>(f, nd). supported cfg f) (snd (snd d)) = []"
  shows "concat (map (cat_images cfg ch_cfg ch) ds) = []" and "count_supported cfg ds = 0"
proof -
  show "concat (map (cat_images cfg ch_cfg ch) ds) = []"
    using assms by (auto simp: cat_images_def split: prod.splits)
  show "count_supported cfg ds = 0"
    using assms by (induction ds) (auto simp: count_supported_def)
qed

lemma no_assets_no_image:
  assumes "no_assets cfg content ch" and "map_of (channels cfg) ch = Some ch_cfg"
  shows "get_random_image cfg content rnd ch = Inr None"
proof -
  from barren_channel[OF assms(1)[unfolded no_assets_def]] obtain ds where
    ds: "channel_cat_dirs ch (month_dirs content) = Inr ds"
        "\<forall>d \<in> set ds. filter (\<lambda>(f, nd). supported cfg f) (snd (snd d)) = []"
    by blast
  show ?thesis
    using ds(1) barren_images(1)[OF ds(2)] assms(2)
    by (simp add: get_random_image_def)
qed

lemma check_low_content_keeps:
  "current_channel_index (snd (check_low_content cfg stats p)) = current_channel_index p
   \<and> last_post_time (snd (check_low_content cfg stats p)) = last_post_time p
   \<and> channels_list (snd (check_low_content cfg stats p)) = channels_list p"
  by (simp add: check_low_content_def Let_def split: prod.splits)

text \<open>
  Claim C3. In a tick within the active hours whose selected channel (with a non-empty
  key) has no file of a supported format, \<^verbatim>\<open>post_and_delete\<close> returns the failure \<^verbatim>\<open>no_content\<close> and changes
  neither the content tree nor the poster nor the state file; the tick as a whole leaves
  the content tree and the last post time as they were, while the index stays advanced to
  the next position, in the poster and in the state file.
\<close>

theorem no_content_tick:
  assumes "in_active_hours cfg (env_hour ev)" and "valid_index p"
    and "channels_list p ! nat (current_channel_index p) = ch"
    and "map_of (channels cfg) ch = Some ch_cfg"
    and "no_assets cfg content ch"
    and "get_content_stats cfg content = Inr stats"
    and "ch \<noteq> []"
  shows "post_and_delete cfg ev q sf' content ch
           = Inr (Failed No_content txt_no_content, q, sf', content)
       \<and> (\<exists>r. posting_tick cfg ev p sf content = Inr r
              \<and> t_channel r = Some ch
              \<and> t_outcome r = Some (Failed No_content txt_no_content)
              \<and> t_content r = content
              \<and> last_post_time (t_poster r) = last_post_time p
              \<and> current_channel_index (t_poster r)
                  = (current_channel_index p + 1) mod int (length (channels_list p))
              \<and> t_state_file r
                  = save_state (p\<lparr>current_channel_index :=
                       (current_channel_index p + 1) mod int (length (channels_list p))\<rparr>))"
proof
  show pd: "post_and_delete cfg ev q sf' content ch
           = Inr (Failed No_content txt_no_content, q, sf', content)" for q sf'
    using no_assets_no_image[OF assms(5,4)] assms(4)
    by (simp add: post_and_delete_def)
  let ?p0 = "p\<lparr>current_channel_index :=
                 (current_channel_index p + 1) mod int (length (channels_list p))\<rparr>"
  from barren_channel[OF assms(5)[unfolded no_assets_def]] obtain ds where
    ds: "channel_cat_dirs ch (month_dirs content) = Inr ds"
        "\<forall>d \<in> set ds. filter (\<lambda>(f, nd). supported cfg f) (snd (snd d)) = []"
    by blast
  obtain alerts p2 where c: "check_low_content cfg stats ?p0 = (alerts, p2)"
    by (cases "check_low_content cfg stats ?p0")
  have keep: "current_channel_index p2 = current_channel_index ?p0"
             "last_post_time p2 = last_post_time ?p0"
    using check_low_content_keeps[of cfg stats ?p0] c by simp_all
  have "posting_tick cfg ev p sf content
        = Inr \<lparr>t_poster = p2, t_state_file = save_state ?p0, t_content = content,
               t_channel = Some ch, t_outcome = Some (Failed No_content txt_no_content),
               t_diag = Some \<lparr>diag_channel = ch, diag_reason = No_content,
                              diag_hint = api_hint No_content txt_no_content,
                              diag_details = txt_no_content,
                              diag_file_count = count_supported cfg ds,
                              diag_recipients = admin_ids cfg\<rparr>,
               t_alerts = alerts\<rparr>"
    using assms(1,3,6,7) get_next_channel_valid[OF assms(2), of sf] pd ds(1) c
    by (simp add: posting_tick_def)
  then show "\<exists>r. posting_tick cfg ev p sf content = Inr r
              \<and> t_channel r = Some ch
              \<and> t_outcome r = Some (Failed No_content txt_no_content)
              \<and> t_content r = content
              \<and> last_post_time (t_poster r) = last_post_time p
              \<and> current_channel_index (t_poster r)
                  = (current_channel_index p + 1) mod int (length (channels_list p))
              \<and> t_state_file r = save_state ?p0"
    using keep by simp
qed

lemma scenario_tick1:
  "posting_tick scenario_config scenario_env scenario_poster Absent scenario_content
   = Inr \<lparr>t_poster = \<lparr>channels_list = [''A'', ''B''], current_channel_index = 1,
                       is_posting = False, last_post_time = Some 100, posting_job = None,
                       low_content_warned = {}, last_send_error = None\<rparr>,
          t_state_file = Stored \<lparr>s_current_channel_index = 1, s_is_posting = False,
                                 s_last_post_time = Some 100\<rparr>,
          t_content = [], t_channel = Some ''A'', t_outcome = Some Ok, t_diag = None,
          t_alerts = []\<rparr>"
  by code_simp

theorem no_content_tick_witness:
  "in_active_hours scenario_config (env_hour scenario_env)
   \<and> valid_index (scenario_poster\<lparr>current_channel_index := 1, last_post_time := Some 100\<rparr>)
   \<and> no_assets scenario_config [] ''B''
   \<and> get_content_stats scenario_config [] = Inr [(''A'', 0), (''B'', 0)]
   \<and> (\<exists>r1. posting_tick scenario_config scenario_env scenario_poster Absent scenario_content
              = Inr r1
          \<and> t_channel r1 = Some ''A'' \<and> t_outcome r1 = Some Ok \<and> t_content r1 = []
          \<and> current_channel_index (t_poster r1) = 1
          \<and> (\<exists>r2. posting_tick scenario_config scenario_env (t_poster r1) (t_state_file r1)
                      (t_content r1) = Inr r2
                 \<and> t_channel r2 = Some ''B''
                 \<and> t_outcome r2 = Some (Failed No_content txt_no_content)
                 \<and> t_content r2 = []
                 \<and> last_post_time (t_poster r2) = Some 100
                 \<and> current_channel_index (t_poster r2) = 0))"
proof -
  let ?p1 = "\<lparr>channels_list = [''A'', ''B''], current_channel_index = 1,
              is_posting = False, last_post_time = Some 100, posting_job = None,
              low_content_warned = {}, last_send_error = None\<rparr>"
  let ?sf1 = "Stored \<lparr>s_current_channel_index = 1, s_is_posting = False,
                      s_last_post_time = Some 100\<rparr>"
  have p1: "scenario_poster\<lparr>current_channel_index := 1, last_post_time := Some 100\<rparr> = ?p1"
    by (simp add: scenario_poster_def init_poster_def load_state_def)
  have h1: "in_active_hours scenario_config (env_hour scenario_env)"
    by (simp add: in_active_hours_def scenario_config_def scenario_env_def)
  have h2: "valid_index ?p1" by (simp add: valid_index_def)
  have h3: "channels_list ?p1 ! nat (current_channel_index ?p1) = ''B''" by simp
  have h4: "map_of (channels scenario_config) ''B''
            = Some \<lparr>channel_name = None, channel_id = ''@b'', enabled = True, categories = []\<rparr>"
    by (simp add: scenario_config_def)
  have h5: "no_assets scenario_config [] ''B''"
    by (simp add: no_assets_def month_dirs_def)
  have h6: "get_content_stats scenario_config [] = Inr [(''A'', 0), (''B'', 0)]"
    by (simp add: get_content_stats_def get_enabled_channels_def scenario_config_def
                  month_dirs_def count_supported_def)
  have h7: "''B'' \<noteq> []" by simp
  from no_content_tick [OF h1 h2 h3 h4 h5 h6 h7, of ?p1 ?sf1 ?sf1]
  obtain r2 where r2: "posting_tick scenario_config scenario_env ?p1 ?sf1 [] = Inr r2"
      "t_channel r2 = Some ''B''"
      "t_outcome r2 = Some (Failed No_content txt_no_content)"
      "t_content r2 = []"
      "last_post_time (t_poster r2) = Some 100"
      "current_channel_index (t_poster r2) = 0"
    by auto
  show ?thesis
    using h1 h2 h5 h6 r2 by (simp add: p1 scenario_tick1)
qed

subsection \<open>A delivery whose file cannot be deleted\<close>

lemma lookup4:
  "lookup es [m, ch, cat, f] = Some nd \<longleftrightarrow>
     (\<exists>mes ces fes. map_of es m = Some (Dir mes) \<and> map_of mes ch = Some (Dir ces)
        \<and> map_of ces cat = Some (Dir fes) \<and> map_of fes f = Some nd)"
  by (auto split: option.splits node.splits)

lemma map_of_filter_keep:
  "map_of es k = Some v \<Longrightarrow> P (k, v) \<Longrightarrow> map_of (filter P es) k = Some v"
  by (induction es) (auto split: if_splits)

lemma clean_channel_other:
  "fst ch_dir \<noteq> ch \<Longrightarrow> map_of (clean_channel ch_dir @ rest) ch = map_of rest ch"
  by (cases ch_dir) (auto simp: clean_channel_def Let_def split: node.splits)

lemma clean_channel_keeps:
  assumes "map_of mes ch = Some (Dir ces)" and "map_of ces cat = Some (Dir fes)"
    and "fes \<noteq> []"
  shows "map_of (concat (map clean_channel mes)) ch
         = Some (Dir (filter (\<lambda>(cat, nd). nd \<noteq> Dir []) ces))"
  using assms(1)
proof (induction mes)
  case Nil
  then show ?case by simp
next
  case (Cons x mes)
  obtain k nd where x: "x = (k, nd)" by (cases x)
  show ?case
  proof (cases "k = ch")
    case True
    then have nd: "nd = Dir ces" using Cons.prems x by simp
    have "map_of (filter (\<lambda>(cat, nd). nd \<noteq> Dir []) ces) cat = Some (Dir fes)"
      using assms(2,3) by (intro map_of_filter_keep) simp_all
    then have "filter (\<lambda>(cat, nd). nd \<noteq> Dir []) ces \<noteq> []" by auto
    then show ?thesis using x True nd by (simp add: clean_channel_def Let_def)
  next
    case False
    then have "map_of mes ch = Some (Dir ces)" using Cons.prems x by simp
    from Cons.IH[OF this] show ?thesis
      using clean_channel_other[of x ch] False x by simp
  qed
qed

lemma clean_month_names:
  "clean_month month_dir = Inr kept \<Longrightarrow> fst ` set kept \<subseteq> {fst month_dir}"
  by (cases month_dir)
     (auto simp: clean_month_def Let_def split: node.splits if_splits)

lemma clean_month_keeps:
  assumes "clean_month (m, Dir mes) = Inr kept"
    and "lookup mes [ch, cat, f] = Some nd"
  shows "\<exists>mes'. kept = [(m, Dir mes')] \<and> lookup mes' [ch, cat, f] = Some nd"
proof (cases "month_re m")
  case False
  then show ?thesis using assms by (auto simp: clean_month_def)
next
  case True
  from assms(2) obtain ces fes where
    l: "map_of mes ch = Some (Dir ces)" "map_of ces cat = Some (Dir fes)" "map_of fes f = Some nd"
    by (auto split: option.splits node.splits)
  have fes: "fes \<noteq> []" using l(3) by auto
  let ?ces' = "filter (\<lambda>(cat, nd). nd \<noteq> Dir []) ces"
  let ?remaining = "concat (map clean_channel mes)"
  have ch: "map_of ?remaining ch = Some (Dir ?ces')"
    using clean_channel_keeps[OF l(1,2) fes] .
  have cat: "map_of ?ces' cat = Some (Dir fes)"
    using l(2) fes by (intro map_of_filter_keep) simp_all
  have look: "lookup ?remaining [ch, cat, f] = Some nd"
    using ch cat l(3) by simp
  have ne: "?remaining \<noteq> []"
  proof
    assume "?remaining = []"
    then have "map_of ?remaining ch = None" by (simp only: map_of.simps)
    then show False using ch by simp
  qed
  have isdir: "list_ex (\<lambda>(n, nd). case nd of Dir es \<Rightarrow> True | File s \<Rightarrow> False) ?remaining"
    using map_of_SomeD[OF ch] by (force simp: list_ex_iff)
  have "kept = [(m, Dir ?remaining)]"
    using assms(1) True ne isdir
    by (simp add: clean_month_def Let_def split: if_splits)
  then show ?thesis using look by blast
qed

lemma cleanup_keeps:
  assumes "cleanup_empty_dirs content = Inr content'"
    and "lookup content [m, ch, cat, f] = Some nd"
  shows "lookup content' [m, ch, cat, f] = Some nd"
  using assms
proof (induction content arbitrary: content')
  case Nil
  then show ?case by simp
next
  case (Cons x content)
  obtain k y where x: "x = (k, y)" by (cases x)
  from Cons.prems(1) obtain kept rest' where
    c: "clean_month x = Inr kept" "cleanup_empty_dirs content = Inr rest'"
       "content' = kept @ rest'"
    by (auto split: sum.splits)
  show ?case
  proof (cases "k = m")
    case True
    from Cons.prems(2) x True obtain mes where
      y: "y = Dir mes" and l: "lookup mes [ch, cat, f] = Some nd"
      by (auto split: option.splits node.splits)
    from clean_month_keeps[OF c(1)[unfolded x y True] l] obtain mes' where
      "kept = [(m, Dir mes')]" "lookup mes' [ch, cat, f] = Some nd"
      by blast
    then show ?thesis using c(3) by simp
  next
    case False
    then have old: "lookup content [m, ch, cat, f] = Some nd"
      using Cons.prems(2) x by simp
    have "m \<notin> fst ` set kept" using clean_month_names[OF c(1)] x False by auto
    then have "map_of kept m = None" by (simp add: map_of_eq_None_iff)
    then have "map_of (kept @ rest') m = map_of rest' m"
      by (simp add: map_add_def)
    then have "lookup content' [m, ch, cat, f] = lookup rest' [m, ch, cat, f]"
      using c(3) by simp
    then show ?thesis using Cons.IH[OF c(2) old] by simp
  qed
qed

lemma image_path_shape:
  assumes "get_random_image cfg content rnd ch = Inr (Some img)"
  shows "\<exists>m cat f. img_path img = [m, ch, cat, f]"
proof -
  from assms obtain ch_cfg ds where
    img: "img = concat (map (cat_images cfg ch_cfg ch) ds)
                ! (rnd mod length (concat (map (cat_images cfg ch_cfg ch) ds)))"
    and ne: "concat (map (cat_images cfg ch_cfg ch) ds) \<noteq> []"
    by (auto simp: get_random_image_def Let_def split: if_splits option.splits sum.splits)
  let ?images = "concat (map (cat_images cfg ch_cfg ch) ds)"
  have "rnd mod length ?images < length ?images" using ne by simp
  then have "img \<in> set ?images" unfolding img by (rule nth_mem)
  then show ?thesis
    by (auto simp: cat_images_def split: prod.splits)
qed

text \<open>
  Claim C10. When a file was chosen and exists, the transport delivers it, the file
  system refuses its deletion and the cleanup pass raises nothing, \<^verbatim>\<open>post_and_delete\<close>
  returns \<^verbatim>\<open>{"ok": True}\<close>, sets the last post time to the current instant, saves the
  state, and the file is still in the content tree; nothing of the refused deletion shows
  in the outcome.
\<close>

theorem delete_failure_still_ok:
  assumes "map_of (channels cfg) ch = Some ch_cfg"
    and "get_random_image cfg content (env_rnd ev) ch = Inr (Some img)"
    and "lookup content (img_path img) = Some nd"
    and "env_send_result ev = None"
    and "env_unlink_fails ev"
    and "cleanup_empty_dirs content = Inr content'"
  shows "post_and_delete cfg ev p sf content ch
           = Inr (Ok, p\<lparr>last_send_error := None, last_post_time := Some (env_now ev)\<rparr>,
                  save_state (p\<lparr>last_send_error := None, last_post_time := Some (env_now ev)\<rparr>),
                  content')
       \<and> lookup content' (img_path img) = Some nd"
proof
  have "try_unlink ev content (img_path img) = content"
    using assms(5) by (simp add: try_unlink_def split: option.splits node.splits)
  then show "post_and_delete cfg ev p sf content ch
           = Inr (Ok, p\<lparr>last_send_error := None, last_post_time := Some (env_now ev)\<rparr>,
                  save_state (p\<lparr>last_send_error := None, last_post_time := Some (env_now ev)\<rparr>),
                  content')"
    using assms(1,2,3,4,6) by (simp add: post_and_delete_def Let_def)
  from image_path_shape[OF assms(2)] obtain m cat f where
    "img_path img = [m, ch, cat, f]" by blast
  then show "lookup content' (img_path img) = Some nd"
    using cleanup_keeps[OF assms(6)] assms(3) by simp
qed

theorem delete_failure_still_ok_witness:
  "map_of (channels scenario_config) ''A''
     = Some \<lparr>channel_name = None, channel_id = ''@a'', enabled = True,
             categories = [(''k'', \<lparr>folder_name = Some ''cats'', hashtags = [''#cat'']\<rparr>)]\<rparr>
   \<and> get_random_image scenario_config scenario_content 7 ''A''
       = Inr (Some \<lparr>img_path = [''2024-01'', ''A'', ''cats'', ''x.JPG''],
                    img_category = ''cats'', img_hashtags = [''#cat'']\<rparr>)
   \<and> lookup scenario_content [''2024-01'', ''A'', ''cats'', ''x.JPG''] = Some (File 5)
   \<and> cleanup_empty_dirs scenario_content = Inr scenario_content
   \<and> post_and_delete scenario_config (scenario_env\<lparr>env_unlink_fails := True\<rparr>)
        scenario_poster Absent scenario_content ''A''
       = Inr (Ok, scenario_poster\<lparr>last_send_error := None, last_post_time := Some 100\<rparr>,
              Stored \<lparr>s_current_channel_index = 0, s_is_posting = False,
                      s_last_post_time = Some 100\<rparr>,
              scenario_content)"
proof -
  let ?ev = "scenario_env\<lparr>env_unlink_fails := True\<rparr>"
  let ?img = "\<lparr>img_path = [''2024-01'', ''A'', ''cats'', ''x.JPG''],
               img_category = ''cats'', img_hashtags = [''#cat'']\<rparr>"
  have h1: "map_of (channels scenario_config) ''A''
     = Some \<lparr>channel_name = None, channel_id = ''@a'', enabled = True,
             categories = [(''k'', \<lparr>folder_name = Some ''cats'', hashtags = [''#cat'']\<rparr>)]\<rparr>"
    by (simp add: scenario_config_def)
  have h2: "get_random_image scenario_config scenario_content (env_rnd ?ev) ''A'' = Inr (Some ?img)"
    by code_simp
  have h3: "lookup scenario_content (img_path ?img) = Some (File 5)"
    by (simp add: scenario_content_def)
  have h4: "env_send_result ?ev = None" by (simp add: scenario_env_def)
  have h5: "env_unlink_fails ?ev" by simp
  have h6: "cleanup_empty_dirs scenario_content = Inr scenario_content"
    by code_simp
  have s: "save_state (scenario_poster\<lparr>last_send_error := None, last_post_time := Some 100\<rparr>)
           = Stored \<lparr>s_current_channel_index = 0, s_is_posting = False,
                     s_last_post_time = Some 100\<rparr>"
    by (simp add: save_state_def scenario_poster_def init_poster_def load_state_def)
  have n: "env_now ?ev = 100" "env_rnd ?ev = 7" by (simp_all add: scenario_env_def)
  from delete_failure_still_ok [OF h1 h2 h3 h4 h5 h6, of scenario_poster Absent]
  show ?thesis using h1 h2 h3 h6 s n by simp
qed

subsection \<open>Albums\<close>

lemma fire_none:
  assumes "waiting g ms d st" and "t < d"
  shows "\<exists>st'. fire_due save_file t st = (st', []) \<and> waiting g ms d st'"
proof -
  obtain up jq where st: "st = (up, jq)" by (cases st)
  have p: "jq_pending jq = [\<lparr>aj_handle = the (album_timers up g), aj_due = d, aj_data = g\<rparr>]"
    using assms(1) st by (simp add: waiting_def)
  have "fire_due save_file t st = ((up, jq\<lparr>jq_pending := jq_pending jq\<rparr>), [])"
    using assms(2) st p by (simp add: fire_due_def)
  then show ?thesis using assms(1) st by (simp add: waiting_def)
qed

lemma handle_waiting:
  assumes "waiting g ms d st" and "media_group_id msg = g"
  shows "waiting g (ms @ [msg]) (t + 2) (handle_album_message t msg st)"
proof -
  obtain up jq where st: "st = (up, jq)" by (cases st)
  from assms(1) st obtain h where
    w: "album_buffer up g = Some ms" "album_timers up g = Some h"
       "jq_pending jq = [\<lparr>aj_handle = h, aj_due = d, aj_data = g\<rparr>]"
    by (auto simp: waiting_def)
  show ?thesis
    using w assms(2) st
    by (simp add: handle_album_message_def run_once_def schedule_removal_def waiting_def Let_def)
qed

lemma handle_idle:
  assumes "idle g st" and "media_group_id msg = g"
  shows "waiting g [msg] (t + 2) (handle_album_message t msg st)"
proof -
  obtain up jq where st: "st = (up, jq)" by (cases st)
  show ?thesis
    using assms st
    by (simp add: handle_album_message_def run_once_def idle_def waiting_def Let_def)
qed

lemma process_waiting:
  assumes "album_buffer up g = Some ms" and "ms \<noteq> []" and "aj_data j = g"
  shows "\<exists>up' f. process_album save_file j up = (up', Some f)
           \<and> album_buffer up' g = None \<and> album_timers up' g = None
           \<and> fl_messages f = ms \<and> fl_time f = aj_due j \<and> fl_group f = g
           \<and> fl_reply_to f = hd ms"
  using assms by (simp add: process_album_def Let_def split: prod.splits)

lemma fire_waiting:
  assumes "waiting g ms d st" and "ms \<noteq> []" and "d \<le> t"
  shows "\<exists>st' f. fire_due save_file t st = (st', [f]) \<and> idle g st'
           \<and> fl_messages f = ms \<and> fl_time f = d \<and> fl_group f = g \<and> fl_reply_to f = hd ms"
proof -
  obtain up jq where st: "st = (up, jq)" by (cases st)
  let ?j = "\<lparr>aj_handle = the (album_timers up g), aj_due = d, aj_data = g\<rparr>"
  have p: "jq_pending jq = [?j]" and b: "album_buffer up g = Some ms"
    using assms(1) st by (simp_all add: waiting_def)
  from process_waiting[OF b assms(2), of ?j save_file] obtain up' f where
    pr: "process_album save_file ?j up = (up', Some f)"
        "album_buffer up' g = None" "album_timers up' g = None"
        "fl_messages f = ms" "fl_time f = d" "fl_group f = g" "fl_reply_to f = hd ms"
    by auto
  have "fire_due save_file t st = ((up', jq\<lparr>jq_pending := []\<rparr>), [f])"
    using assms(3) st p pr(1) by (simp add: fire_due_def)
  then show ?thesis using pr by (simp add: idle_def)
qed

lemma drain_waiting:
  assumes "waiting g ms d st" and "ms \<noteq> []"
  shows "\<exists>f. run_arrivals save_file st [] = [f]
           \<and> fl_messages f = ms \<and> fl_time f = d \<and> fl_group f = g \<and> fl_reply_to f = hd ms"
proof -
  obtain up jq where st: "st = (up, jq)" by (cases st)
  let ?j = "\<lparr>aj_handle = the (album_timers up g), aj_due = d, aj_data = g\<rparr>"
  have p: "jq_pending jq = [?j]" and b: "album_buffer up g = Some ms"
    using assms(1) st by (simp_all add: waiting_def)
  from process_waiting[OF b assms(2), of ?j save_file] obtain up' f where
    pr: "process_album save_file ?j up = (up', Some f)"
        "fl_messages f = ms" "fl_time f = d" "fl_group f = g" "fl_reply_to f = hd ms"
    by auto
  have "run_arrivals save_file st [] = [f]"
    using st p pr(1) by simp
  then show ?thesis using pr by simp
qed

lemma one_flush_from_waiting:
  assumes "waiting g ms d st" and "ms \<noteq> []"
    and "\<forall>e \<in> set events. media_group_id (snd e) = g"
    and "close_gaps 2 (map fst events)"
    and "case events of [] \<Rightarrow> True | e # es \<Rightarrow> fst e < d"
  shows "\<exists>f. run_arrivals save_file st events = [f]
           \<and> fl_messages f = ms @ map snd events
           \<and> fl_time f = (if events = [] then d else fst (last events) + 2)
           \<and> fl_group f = g \<and> fl_reply_to f = hd ms"
  using assms
proof (induction events arbitrary: st ms d)
  case Nil
  from drain_waiting[OF Nil.prems(1,2), of save_file] show ?case by auto
next
  case (Cons e events)
  obtain t msg where e: "e = (t, msg)" by (cases e)
  have t: "t < d" and g: "media_group_id msg = g"
    using Cons.prems(3,5) e by simp_all
  from fire_none[OF Cons.prems(1) t, of save_file] obtain st1 where
    f: "fire_due save_file t st = (st1, [])" "waiting g ms d st1"
    by blast
  let ?st2 = "handle_album_message t msg st1"
  have w: "waiting g (ms @ [msg]) (t + 2) ?st2"
    using handle_waiting[OF f(2) g] .
  have nxt: "case events of [] \<Rightarrow> True | e' # es \<Rightarrow> fst e' < t + 2"
    using Cons.prems(4) e by (cases events) auto
  have cg: "close_gaps 2 (map fst events)"
    using Cons.prems(4) e by (cases events) auto
  from Cons.IH[OF w _ _ cg nxt] Cons.prems(3) obtain f' where
    r: "run_arrivals save_file ?st2 events = [f']"
       "fl_messages f' = (ms @ [msg]) @ map snd events"
       "fl_time f' = (if events = [] then t + 2 else fst (last events) + 2)"
       "fl_group f' = g" "fl_reply_to f' = hd (ms @ [msg])"
    by auto
  have "run_arrivals save_file st (e # events) = [f']"
    using f(1) r(1) e by simp
  then show ?case using r e Cons.prems(2) by auto
qed

lemma two_flushes_from_waiting:
  assumes "waiting g ms d st" and "ms \<noteq> []"
    and "\<forall>e \<in> set events. media_group_id (snd e) = g" and "media_group_id msg = g"
    and "close_gaps 2 (map fst events)"
    and "case events of [] \<Rightarrow> True | e # es \<Rightarrow> fst e < d"
    and "(if events = [] then d else fst (last events) + 2) \<le> t"
  shows "\<exists>f1 f2. run_arrivals save_file st (events @ [(t, msg)]) = [f1, f2]
           \<and> fl_messages f1 = ms @ map snd events \<and> fl_reply_to f1 = hd ms
           \<and> fl_time f1 = (if events = [] then d else fst (last events) + 2)
           \<and> fl_messages f2 = [msg] \<and> fl_reply_to f2 = msg \<and> fl_time f2 = t + 2"
  using assms
proof (induction events arbitrary: st ms d)
  case Nil
  then have due: "d \<le> t" by simp
  from fire_waiting[OF Nil.prems(1,2) due, of save_file] obtain st1 f1 where
    f: "fire_due save_file t st = (st1, [f1])" "idle g st1"
       "fl_messages f1 = ms" "fl_time f1 = d" "fl_reply_to f1 = hd ms"
    by blast
  have w: "waiting g [msg] (t + 2) (handle_album_message t msg st1)"
    using handle_idle[OF f(2) Nil.prems(4)] .
  from drain_waiting[OF w, of save_file] obtain f2 where
    d2: "run_arrivals save_file (handle_album_message t msg st1) [] = [f2]"
        "fl_messages f2 = [msg]" "fl_time f2 = t + 2" "fl_reply_to f2 = msg"
    by auto
  have "run_arrivals save_file st ([] @ [(t, msg)]) = [f1, f2]"
    using f(1) d2(1) by simp
  then show ?case using f d2 by auto
next
  case (Cons e events)
  obtain t' msg' where e: "e = (t', msg')" by (cases e)
  have t': "t' < d" and g: "media_group_id msg' = g"
    using Cons.prems(3,6) e by simp_all
  from fire_none[OF Cons.prems(1) t', of save_file] obtain st1 where
    f: "fire_due save_file t' st = (st1, [])" "waiting g ms d st1"
    by blast
  let ?st2 = "handle_album_message t' msg' st1"
  have w: "waiting g (ms @ [msg']) (t' + 2) ?st2"
    using handle_waiting[OF f(2) g] .
  have nxt: "case events of [] \<Rightarrow> True | e' # es \<Rightarrow> fst e' < t' + 2"
    using Cons.prems(5) e by (cases events) auto
  have cg: "close_gaps 2 (map fst events)"
    using Cons.prems(5) e by (cases events) auto
  have late: "(if events = [] then t' + 2 else fst (last events) + 2) \<le> t"
    using Cons.prems(7) e by (cases events) auto
  from Cons.IH[OF w _ _ Cons.prems(4) cg nxt late] Cons.prems(3) obtain f1 f2 where
    r: "run_arrivals save_file ?st2 (events @ [(t, msg)]) = [f1, f2]"
       "fl_messages f1 = (ms @ [msg']) @ map snd events"
       "fl_reply_to f1 = hd (ms @ [msg'])"
       "fl_time f1 = (if events = [] then t' + 2 else fst (last events) + 2)"
       "fl_messages f2 = [msg]" "fl_reply_to f2 = msg" "fl_time f2 = t + 2"
    by auto
  have "run_arrivals save_file st ((e # events) @ [(t, msg)]) = [f1, f2]"
    using f(1) r(1) e by simp
  then show ?case using r e Cons.prems(2) by auto
qed

lemma first_arrival_run:
  "run_arrivals save_file init_uploader ((t, msg) # events)
     = run_arrivals save_file (handle_album_message t msg init_uploader) events"
proof -
  have "fire_due save_file t init_uploader
        = ((fst init_uploader, (snd init_uploader)\<lparr>jq_pending := []\<rparr>), [])"
    by (simp add: fire_due_def init_uploader_def)
  also have "\<dots> = (init_uploader, [])" by (simp add: init_uploader_def)
  finally show ?thesis by simp
qed

lemma first_arrival_state:
  assumes "media_group_id msg = g"
  shows "waiting g [msg] (t + 2) (handle_album_message t msg init_uploader)"
proof -
  have "idle g init_uploader" by (simp add: idle_def init_uploader_def)
  from handle_idle[OF this assms] show ?thesis .
qed

text \<open>
  Claim C4. Messages of one media group arrive at an uploader that holds nothing. When
  every arrival comes less than 2 seconds after the one before, \<^verbatim>\<open>_process_album\<close> runs
  once, 2 seconds after the last arrival, on all the messages in arrival order, and sends
  its one reply to the first of them. When the last arrival comes 2 seconds or more after
  the one before it and the earlier ones are close, it runs twice: on all messages but the
  last, and on the last alone, one reply each.
\<close>

theorem album_debounce:
  assumes "events \<noteq> []" and "\<forall>e \<in> set events. media_group_id (snd e) = g"
  shows "(close_gaps 2 (map fst events) \<longrightarrow>
            (\<exists>f. run_arrivals save_file init_uploader events = [f]
                \<and> fl_messages f = map snd events
                \<and> fl_reply_to f = snd (hd events)
                \<and> fl_time f = fst (last events) + 2))
       \<and> (length events \<ge> 2 \<and> close_gaps 2 (map fst (butlast events))
            \<and> fst (last events) - fst (last (butlast events)) \<ge> 2 \<longrightarrow>
            (\<exists>f1 f2. run_arrivals save_file init_uploader events = [f1, f2]
                \<and> fl_messages f1 = map snd (butlast events)
                \<and> fl_reply_to f1 = snd (hd events)
                \<and> fl_time f1 = fst (last (butlast events)) + 2
                \<and> fl_messages f2 = [snd (last events)]
                \<and> fl_reply_to f2 = snd (last events)
                \<and> fl_time f2 = fst (last events) + 2))"
proof (intro conjI impI)
  from assms(1) obtain t msg rest where ev: "events = (t, msg) # rest"
    by (cases events) auto
  have g: "media_group_id msg = g" and gr: "\<forall>e \<in> set rest. media_group_id (snd e) = g"
    using assms(2) ev by simp_all
  note fr = first_arrival_run[where save_file = save_file and t = t and msg = msg]
  note fs = first_arrival_state[OF g, where t = t]
  {
    assume c: "close_gaps 2 (map fst events)"
    have cr: "close_gaps 2 (map fst rest)" using c ev by (cases rest) auto
    have nx: "case rest of [] \<Rightarrow> True | e # es \<Rightarrow> fst e < t + 2"
      using c ev by (cases rest) auto
    from one_flush_from_waiting[OF fs _ gr cr nx, of save_file] obtain f where
      "run_arrivals save_file (handle_album_message t msg init_uploader) rest = [f]"
      "fl_messages f = [msg] @ map snd rest"
      "fl_time f = (if rest = [] then t + 2 else fst (last rest) + 2)"
      "fl_reply_to f = hd [msg]"
      by auto
    then show "\<exists>f. run_arrivals save_file init_uploader events = [f]
                \<and> fl_messages f = map snd events
                \<and> fl_reply_to f = snd (hd events)
                \<and> fl_time f = fst (last events) + 2"
      using fr[of rest] ev by auto
  }
  {
    assume h: "length events \<ge> 2 \<and> close_gaps 2 (map fst (butlast events))
            \<and> fst (last events) - fst (last (butlast events)) \<ge> 2"
    then have "rest \<noteq> []" using ev by auto
    then obtain mid tN mN where rest: "rest = mid @ [(tN, mN)]"
      by (metis surj_pair rev_exhaust)
    have bl: "butlast events = (t, msg) # mid" and la: "last events = (tN, mN)"
      using ev rest by simp_all
    have gm: "\<forall>e \<in> set mid. media_group_id (snd e) = g" and gN: "media_group_id mN = g"
      using gr rest by simp_all
    have cm: "close_gaps 2 (map fst mid)" using h bl by (cases mid) auto
    have nx: "case mid of [] \<Rightarrow> True | e # es \<Rightarrow> fst e < t + 2"
      using h bl by (cases mid) auto
    have late: "(if mid = [] then t + 2 else fst (last mid) + 2) \<le> tN"
      using h bl la by (cases mid) auto
    from two_flushes_from_waiting[OF fs _ gm gN cm nx late, of save_file] obtain f1 f2 where
      r: "run_arrivals save_file (handle_album_message t msg init_uploader) (mid @ [(tN, mN)])
          = [f1, f2]"
         "fl_messages f1 = [msg] @ map snd mid" "fl_reply_to f1 = hd [msg]"
         "fl_time f1 = (if mid = [] then t + 2 else fst (last mid) + 2)"
         "fl_messages f2 = [mN]" "fl_reply_to f2 = mN" "fl_time f2 = tN + 2"
      by auto
    have "run_arrivals save_file init_uploader events = [f1, f2]"
      using fr[of rest] r(1) ev rest by simp
    then show "\<exists>f1 f2. run_arrivals save_file init_uploader events = [f1, f2]
                \<and> fl_messages f1 = map snd (butlast events)
                \<and> fl_reply_to f1 = snd (hd events)
                \<and> fl_time f1 = fst (last (butlast events)) + 2
                \<and> fl_messages f2 = [snd (last events)]
                \<and> fl_reply_to f2 = snd (last events)
                \<and> fl_time f2 = fst (last events) + 2"
      using r bl la ev by auto
  }
qed

theorem album_debounce_witness:
  "close_gaps 2 [0, 1, 5 / 2 :: real]
   \<and> (\<exists>f. run_arrivals example_save init_uploader
              [(0::real, album_message ''g'' ''#cat'' 0), (1, album_message ''g'' ''#cat'' 1),
               (5 / 2, album_message ''g'' ''#cat'' 2)] = [f]
          \<and> fl_messages f = [album_message ''g'' ''#cat'' 0, album_message ''g'' ''#cat'' 1,
                             album_message ''g'' ''#cat'' 2]
          \<and> fl_reply_to f = album_message ''g'' ''#cat'' 0
          \<and> fl_time f = 9 / 2)
   \<and> close_gaps 2 [0, 1 :: real] \<and> (3::real) - 1 \<ge> 2
   \<and> (\<exists>f1 f2. run_arrivals example_save init_uploader
              [(0::real, album_message ''g'' ''#cat'' 0), (1, album_message ''g'' ''#cat'' 1),
               (3, album_message ''g'' ''#cat'' 2)] = [f1, f2]
          \<and> fl_messages f1 = [album_message ''g'' ''#cat'' 0, album_message ''g'' ''#cat'' 1]
          \<and> fl_time f1 = 3
          \<and> fl_messages f2 = [album_message ''g'' ''#cat'' 2]
          \<and> fl_time f2 = 5)"
proof -
  let ?e1 = "[(0::real, album_message ''g'' ''#cat'' 0), (1, album_message ''g'' ''#cat'' 1),
              (5 / 2, album_message ''g'' ''#cat'' 2)]"
  let ?e2 = "[(0::real, album_message ''g'' ''#cat'' 0), (1, album_message ''g'' ''#cat'' 1),
              (3, album_message ''g'' ''#cat'' 2)]"
  have n1: "?e1 \<noteq> []" and n2: "?e2 \<noteq> []" by simp_all
  have g1: "\<forall>e \<in> set ?e1. media_group_id (snd e) = ''g''"
    and g2: "\<forall>e \<in> set ?e2. media_group_id (snd e) = ''g''"
    by (simp_all add: album_message_def)
  have c1: "close_gaps 2 (map fst ?e1)" by simp
  have c2: "length ?e2 \<ge> 2 \<and> close_gaps 2 (map fst (butlast ?e2))
            \<and> fst (last ?e2) - fst (last (butlast ?e2)) \<ge> 2"
    by simp
  from album_debounce [OF n1 g1, of example_save] c1
  have a: "\<exists>f. run_arrivals example_save init_uploader ?e1 = [f]
                \<and> fl_messages f = map snd ?e1
                \<and> fl_reply_to f = snd (hd ?e1)
                \<and> fl_time f = fst (last ?e1) + 2"
    by blast
  from album_debounce [OF n2 g2, of example_save] c2
  have b: "\<exists>f1 f2. run_arrivals example_save init_uploader ?e2 = [f1, f2]
                \<and> fl_messages f1 = map snd (butlast ?e2)
                \<and> fl_reply_to f1 = snd (hd ?e2)
                \<and> fl_time f1 = fst (last (butlast ?e2)) + 2
                \<and> fl_messages f2 = [snd (last ?e2)]
                \<and> fl_reply_to f2 = snd (last ?e2)
                \<and> fl_time f2 = fst (last ?e2) + 2"
    by blast
  from a obtain f where
    "run_arrivals example_save init_uploader ?e1 = [f]"
    "fl_messages f = map snd ?e1" "fl_reply_to f = snd (hd ?e1)" "fl_time f = fst (last ?e1) + 2"
    by blast
  then have a': "\<exists>f. run_arrivals example_save init_uploader ?e1 = [f]
          \<and> fl_messages f = [album_message ''g'' ''#cat'' 0, album_message ''g'' ''#cat'' 1,
                             album_message ''g'' ''#cat'' 2]
          \<and> fl_reply_to f = album_message ''g'' ''#cat'' 0
          \<and> fl_time f = 9 / 2"
    by simp
  from b obtain f1 f2 where
    "run_arrivals example_save init_uploader ?e2 = [f1, f2]"
    "fl_messages f1 = map snd (butlast ?e2)" "fl_time f1 = fst (last (butlast ?e2)) + 2"
    "fl_messages f2 = [snd (last ?e2)]" "fl_time f2 = fst (last ?e2) + 2"
    by blast
  then have b': "\<exists>f1 f2. run_arrivals example_save init_uploader ?e2 = [f1, f2]
          \<and> fl_messages f1 = [album_message ''g'' ''#cat'' 0, album_message ''g'' ''#cat'' 1]
          \<and> fl_time f1 = 3
          \<and> fl_messages f2 = [album_message ''g'' ''#cat'' 2]
          \<and> fl_time f2 = 5"
    by simp
  show ?thesis using a' b' by simp
qed

subsection \<open>Writing the state file\<close>

lemma save_state_crash_states:
  "map (\<lambda>d. d State_file) (crash_states (save_state_ops p) disk)
   = [disk State_file, Malformed, save_state p]"
  by (simp add: crash_states_def save_state_ops_def write_text_def exec_ops_def upt_rec)

lemma save_state_completed: "exec_ops (save_state_ops p) disk State_file = save_state p"
  by (simp add: save_state_ops_def write_text_def exec_ops_def)

lemma temp_then_rename_atomic:
  "map (\<lambda>d. d State_file) (crash_states (temp_then_rename data) disk)
   = [disk State_file, disk State_file, disk State_file, data]"
  by (simp add: crash_states_def temp_then_rename_def write_text_def exec_ops_def upt_rec)

text \<open>
  Claim C9, as the code has it. Every save is the two operations of one
  \<^verbatim>\<open>write_text\<close> on the state file itself, with no temporary file and no rename: the state
  file that \<^verbatim>\<open>get_next_channel\<close>, \<^verbatim>\<open>start_posting\<close>, \<^verbatim>\<open>stop_posting\<close> and a successful
  \<^verbatim>\<open>post_and_delete\<close> leave is what these operations end with, and storage holds during
  them the old file, then an emptied file, then the new record. A start that finds the
  emptied file does not fail: it keeps the initial state, index 0 and no last post time, as
  when the file is absent.
\<close>

theorem save_state_in_place:
  "save_state_ops p = [Open_w State_file, Write State_file (save_state p)]
   \<and> map (\<lambda>d. d State_file) (crash_states (save_state_ops p) disk)
       = [disk State_file, Malformed, save_state p]
   \<and> (\<forall>ch p' sf'. get_next_channel p sf = Inr (Some ch, p', sf')
          \<longrightarrow> sf' = exec_ops (save_state_ops p') disk State_file)
   \<and> (\<forall>p' sf'. start_posting cfg now p sf = (True, p', sf')
          \<longrightarrow> sf' = exec_ops (save_state_ops p') disk State_file)
   \<and> (\<forall>p' sf'. stop_posting p sf = (True, p', sf')
          \<longrightarrow> sf' = exec_ops (save_state_ops p') disk State_file)
   \<and> (\<forall>p' sf' content'. post_and_delete cfg ev p sf content ch = Inr (Ok, p', sf', content')
          \<longrightarrow> sf' = exec_ops (save_state_ops p') disk State_file)
   \<and> init_poster chans Malformed = init_poster chans Absent
   \<and> current_channel_index (init_poster chans Malformed) = 0
   \<and> last_post_time (init_poster chans Malformed) = None"
proof (intro conjI allI impI)
  show "save_state_ops p = [Open_w State_file, Write State_file (save_state p)]"
    by (simp add: save_state_ops_def write_text_def)
  show "map (\<lambda>d. d State_file) (crash_states (save_state_ops p) disk)
       = [disk State_file, Malformed, save_state p]"
    by (rule save_state_crash_states)
  show "init_poster chans Malformed = init_poster chans Absent"
    and "current_channel_index (init_poster chans Malformed) = 0"
    and "last_post_time (init_poster chans Malformed) = None"
    by (simp_all add: init_poster_def load_state_def)
next
  fix ch p' sf'
  assume "get_next_channel p sf = Inr (Some ch, p', sf')"
  then have "sf' = save_state p'"
    by (auto simp: get_next_channel_def Let_def split: if_splits sum.splits)
  then show "sf' = exec_ops (save_state_ops p') disk State_file"
    by (simp add: save_state_completed)
next
  fix p' sf'
  assume "start_posting cfg now p sf = (True, p', sf')"
  then have "sf' = save_state p'"
    by (auto simp: start_posting_def Let_def split: if_splits)
  then show "sf' = exec_ops (save_state_ops p') disk State_file"
    by (simp add: save_state_completed)
next
  fix p' sf'
  assume "stop_posting p sf = (True, p', sf')"
  then have "sf' = save_state p'"
    by (auto simp: stop_posting_def Let_def split: if_splits)
  then show "sf' = exec_ops (save_state_ops p') disk State_file"
    by (simp add: save_state_completed)
next
  fix p' sf' content'
  assume "post_and_delete cfg ev p sf content ch = Inr (Ok, p', sf', content')"
  then have "sf' = save_state p'"
    by (auto simp: post_and_delete_def Let_def
             split: option.splits sum.splits if_splits)
  then show "sf' = exec_ops (save_state_ops p') disk State_file"
    by (simp add: save_state_completed)
qed

theorem save_state_in_place_witness:
  "get_next_channel example_poster Absent
     = Inr (Some ''b'', example_poster\<lparr>current_channel_index := 2\<rparr>,
            save_state (example_poster\<lparr>current_channel_index := 2\<rparr>))
   \<and> save_state (example_poster\<lparr>current_channel_index := 2\<rparr>)
       = exec_ops (save_state_ops (example_poster\<lparr>current_channel_index := 2\<rparr>))
           example_disk State_file
   \<and> map (\<lambda>d. d State_file)
        (crash_states (save_state_ops (example_poster\<lparr>current_channel_index := 2\<rparr>))
           example_disk)
       = [save_state example_poster, Malformed,
          save_state (example_poster\<lparr>current_channel_index := 2\<rparr>)]
   \<and> stop_posting (example_poster\<lparr>is_posting := True\<rparr>) Absent
       = (True, example_poster\<lparr>posting_job := None, is_posting := False\<rparr>,
          exec_ops (save_state_ops (example_poster\<lparr>posting_job := None, is_posting := False\<rparr>))
            example_disk State_file)"
proof -
  let ?p2 = "example_poster\<lparr>current_channel_index := 2\<rparr>"
  let ?p3 = "example_poster\<lparr>posting_job := None, is_posting := False\<rparr>"
  have g: "get_next_channel example_poster Absent = Inr (Some ''b'', ?p2, save_state ?p2)"
    by (simp add: get_next_channel_def py_index_def example_poster_def Let_def)
  have s: "stop_posting (example_poster\<lparr>is_posting := True\<rparr>) Absent
           = (True, ?p3, save_state ?p3)"
    by (simp add: stop_posting_def example_poster_def Let_def)
  have d: "example_disk State_file = save_state example_poster"
    by (simp add: example_disk_def)
  note w1 = save_state_in_place [of example_poster example_disk Absent,
                THEN conjunct2, THEN conjunct2, THEN conjunct1, rule_format]
  note w2 = save_state_in_place [of "example_poster\<lparr>is_posting := True\<rparr>" example_disk Absent,
                THEN conjunct2, THEN conjunct2, THEN conjunct2, THEN conjunct2,
                THEN conjunct1, rule_format]
  note w3 = save_state_in_place [of ?p2 example_disk, THEN conjunct2, THEN conjunct1]
  from w1 [OF g] have a: "save_state ?p2 = exec_ops (save_state_ops ?p2) example_disk State_file" .
  from w2 [OF s] have b: "save_state ?p3 = exec_ops (save_state_ops ?p3) example_disk State_file" .
  from w3 have c: "map (\<lambda>d. d State_file) (crash_states (save_state_ops ?p2) example_disk)
       = [save_state example_poster, Malformed, save_state ?p2]"
    unfolding d .
  show ?thesis
    using g s a b c by (simp only: simp_thms)
qed

text \<open>
  The claim as the specification words it has every save go through a temporary file and
  a rename, so that a crash leaves either the old record or the new one. With the
  operations of \<^verbatim>\<open>_save_state\<close>, a crash after the first of them leaves the state file
  emptied, which is neither; the scheme of the specification would leave the old record
  until the rename.
\<close>

theorem save_state_not_atomic:
  "(crash_states
      (save_state_ops (example_poster\<lparr>current_channel_index := 2\<rparr>)) example_disk ! 1)
     State_file = Malformed
   \<and> example_disk State_file = save_state example_poster
   \<and> Malformed \<noteq> save_state example_poster
   \<and> Malformed \<noteq> save_state (example_poster\<lparr>current_channel_index := 2\<rparr>)
   \<and> save_state_ops (example_poster\<lparr>current_channel_index := 2\<rparr>)
       \<noteq> temp_then_rename (save_state (example_poster\<lparr>current_channel_index := 2\<rparr>))
   \<and> map (\<lambda>d. d State_file)
        (crash_states
           (temp_then_rename (save_state (example_poster\<lparr>current_channel_index := 2\<rparr>)))
           example_disk)
       = [save_state example_poster, save_state example_poster, save_state example_poster,
          save_state (example_poster\<lparr>current_channel_index := 2\<rparr>)]"
  by (simp add: crash_states_def save_state_ops_def temp_then_rename_def write_text_def
                exec_ops_def example_disk_def save_state_def upt_rec)

end
